theory Spec2Isabelle
  imports Complex_Main "HOL-Library.AList"
begin

section \<open>Python floats\<close>

text \<open>
  The numbers of \<^verbatim>\<open>PyMPLE.py\<close> are Python/numpy floats. They are modelled as the
  real numbers extended with the non-finite values of IEEE 754 arithmetic: a negative
  zero, the two infinities and NaN. Finite arithmetic is exact (rounding and overflow are
  not modelled); the non-finite cases follow IEEE 754 as numpy implements it (a division
  by zero or a logarithm of a non-positive number gives an infinity or NaN and a warning,
  never an exception).  \<open>Fin 0\<close> is \<open>+0.0\<close>.
\<close>

datatype pyfloat = Fin real | NegZero | PInf | NInf | NaN

fun signbit :: "pyfloat \<Rightarrow> bool" where
  "signbit (Fin x) = (x < 0)"
| "signbit NegZero = True"
| "signbit PInf = False"
| "signbit NInf = True"
| "signbit NaN = False"

fun is_zero :: "pyfloat \<Rightarrow> bool" where
  "is_zero (Fin x) = (x = 0)"
| "is_zero NegZero = True"
| "is_zero _ = False"

fun is_inf :: "pyfloat \<Rightarrow> bool" where
  "is_inf PInf = True"
| "is_inf NInf = True"
| "is_inf _ = False"

fun is_nan :: "pyfloat \<Rightarrow> bool" where
  "is_nan NaN = True"
| "is_nan _ = False"

text \<open>The real value of a finite float (0 for the others, where it is never used).\<close>

fun rv :: "pyfloat \<Rightarrow> real" where
  "rv (Fin x) = x"
| "rv _ = 0"

definition zero_s :: "bool \<Rightarrow> pyfloat" where
  "zero_s neg = (if neg then NegZero else Fin 0)"

definition inf_s :: "bool \<Rightarrow> pyfloat" where
  "inf_s neg = (if neg then NInf else PInf)"

text \<open>A finite result \<open>r\<close>; when it is zero its sign is \<open>neg\<close>.\<close>

definition fin :: "real \<Rightarrow> bool \<Rightarrow> pyfloat" where
  "fin r neg = (if r = 0 then zero_s neg else Fin r)"

fun fneg :: "pyfloat \<Rightarrow> pyfloat" where
  "fneg (Fin x) = (if x = 0 then NegZero else Fin (- x))"
| "fneg NegZero = Fin 0"
| "fneg PInf = NInf"
| "fneg NInf = PInf"
| "fneg NaN = NaN"

fun fabs :: "pyfloat \<Rightarrow> pyfloat" where
  "fabs (Fin x) = Fin \<bar>x\<bar>"
| "fabs NegZero = Fin 0"
| "fabs PInf = PInf"
| "fabs NInf = PInf"
| "fabs NaN = NaN"

text \<open>\<open>a + b\<close>: an exact zero sum is \<open>+0.0\<close> unless both operands are \<open>-0.0\<close>.\<close>

definition fadd :: "pyfloat \<Rightarrow> pyfloat \<Rightarrow> pyfloat" where
  "fadd a b =
     (if is_nan a \<or> is_nan b then NaN
      else if is_inf a then (if is_inf b \<and> signbit a \<noteq> signbit b then NaN else a)
      else if is_inf b then b
      else fin (rv a + rv b) (a = NegZero \<and> b = NegZero))"

definition fsub :: "pyfloat \<Rightarrow> pyfloat \<Rightarrow> pyfloat" where
  "fsub a b = fadd a (fneg b)"

definition fmul :: "pyfloat \<Rightarrow> pyfloat \<Rightarrow> pyfloat" where
  "fmul a b =
     (if is_nan a \<or> is_nan b then NaN
      else if (is_inf a \<and> is_zero b) \<or> (is_zero a \<and> is_inf b) then NaN
      else if is_inf a \<or> is_inf b then inf_s (signbit a \<noteq> signbit b)
      else fin (rv a * rv b) (signbit a \<noteq> signbit b))"

text \<open>numpy's division of floats: \<open>x / 0\<close> is a signed infinity, \<open>0 / 0\<close> is NaN.\<close>

definition fdiv :: "pyfloat \<Rightarrow> pyfloat \<Rightarrow> pyfloat" where
  "fdiv a b =
     (if is_nan a \<or> is_nan b then NaN
      else if (is_inf a \<and> is_inf b) \<or> (is_zero a \<and> is_zero b) then NaN
      else if is_inf a \<or> is_zero b then inf_s (signbit a \<noteq> signbit b)
      else if is_inf b then zero_s (signbit a \<noteq> signbit b)
      else fin (rv a / rv b) (signbit a \<noteq> signbit b))"

text \<open>\<^verbatim>\<open>np.log\<close>: \<open>-inf\<close> at zero, NaN below zero.\<close>

fun flog :: "pyfloat \<Rightarrow> pyfloat" where
  "flog (Fin x) = (if x = 0 then NInf else if x < 0 then NaN else Fin (ln x))"
| "flog NegZero = NInf"
| "flog PInf = PInf"
| "flog NInf = NaN"
| "flog NaN = NaN"

text \<open>Comparisons: every comparison with NaN is false; the two zeros are equal.\<close>

fun fle :: "pyfloat \<Rightarrow> pyfloat \<Rightarrow> bool" where
  "fle NaN _ = False"
| "fle _ NaN = False"
| "fle NInf _ = True"
| "fle _ PInf = True"
| "fle PInf _ = False"
| "fle _ NInf = False"
| "fle a b = (rv a \<le> rv b)"

fun flt :: "pyfloat \<Rightarrow> pyfloat \<Rightarrow> bool" where
  "flt NaN _ = False"
| "flt _ NaN = False"
| "flt PInf _ = False"
| "flt _ NInf = False"
| "flt NInf _ = True"
| "flt _ PInf = True"
| "flt a b = (rv a < rv b)"

definition fgt :: "pyfloat \<Rightarrow> pyfloat \<Rightarrow> bool" where
  "fgt a b = flt b a"

text \<open>Truth value of a float in a condition: zero (of either sign) is false.\<close>

definition truthy_float :: "pyfloat \<Rightarrow> bool" where
  "truthy_float x = (\<not> is_zero x)"

section \<open>Strings and dictionaries\<close>

text \<open>\<^verbatim>\<open>str(i)\<close> for an integer: decimal digits, a minus sign when negative.\<close>

definition digit :: "nat \<Rightarrow> char" where
  "digit d = char_of (48 + d)"

fun str_nat :: "nat \<Rightarrow> string" where
  "str_nat n = (if n < 10 then [digit n] else str_nat (n div 10) @ [digit (n mod 10)])"

declare str_nat.simps [simp del]

definition str_int :: "int \<Rightarrow> string" where
  "str_int i = (if i < 0 then CHR ''-'' # str_nat (nat (- i)) else str_nat (nat i))"

text \<open>\<^verbatim>\<open>'_'.join([pname, dr, str(i)])\<close>\<close>

definition join3 :: "string \<Rightarrow> string \<Rightarrow> int \<Rightarrow> string" where
  "join3 pname dr i = pname @ ''_'' @ dr @ ''_'' @ str_int i"

text \<open>
  A Python dictionary with string keys, in insertion order: assigning to a present key
  keeps its place, a new key goes to the end (\<open>AList.update\<close>);
  \<^verbatim>\<open>d.pop(k, None)\<close> is \<open>AList.delete\<close>; \<^verbatim>\<open>{**a, **b}\<close> assigns the
  items of \<open>b\<close>, in order, into a copy of \<open>a\<close>.
\<close>

type_synonym 'v dict = "(string \<times> 'v) list"

definition dict_merge :: "'v dict \<Rightarrow> 'v dict \<Rightarrow> 'v dict" where
  "dict_merge a b = fold (\<lambda>(k, v). AList.update k v) b a"

section \<open>Python objects, exceptions, the external model\<close>

text \<open>Values of no fixed type: the \<^verbatim>\<open>dae\<close> argument, the attributes assigned to a
  session after its construction, and the content of the export file.\<close>

datatype pyobj =
    PyNone
  | PyBool bool
  | PyInt int
  | PyFloat pyfloat
  | PyStr string
  | PyList "pyobj list"
  | PyDict "(string \<times> pyobj) list"

fun truthy :: "pyobj \<Rightarrow> bool" where
  "truthy PyNone = False"
| "truthy (PyBool b) = b"
| "truthy (PyInt n) = (n \<noteq> 0)"
| "truthy (PyFloat x) = truthy_float x"
| "truthy (PyStr s) = (s \<noteq> [])"
| "truthy (PyList xs) = (xs \<noteq> [])"
| "truthy (PyDict kvs) = (kvs \<noteq> [])"

datatype exc =
    KeyError string
  | AttributeError string
  | TypeError
  | FileNotFoundError string
  | ExternalError
  | OutsideModel string

text \<open>
  The optimisation model and the solver are external (Pyomo and a solver binary). The
  model is a state of an arbitrary type \<open>'m\<close>, mutated in place by the source and passed
  explicitly here; what the source calls on it is a parameter:
  \<^item> \<open>solve\<close>: \<^verbatim>\<open>r = self.solver.solve(self.m); self.m.solutions.load_from(r)\<close>;
    the flag is false when the call raises, and the model may have changed even then;
  \<^item> \<open>obj_value\<close>: \<^verbatim>\<open>value(self.m.obj)\<close>, the value of the objective;
  \<^item> \<open>var_value p\<close>: \<^verbatim>\<open>value(getattr(self.m, p))\<close>;
  \<^item> \<open>var_bounds p\<close>: \<^verbatim>\<open>self.m.find_component(p).bounds\<close>, \<open>None\<close> for an
    absent bound;
  \<^item> \<open>set_value\<close>, \<open>fix_var\<close>, \<open>unfix_var\<close>: the methods of the variable \<open>p\<close>;
  \<^item> \<open>transform d\<close>: \<^verbatim>\<open>TransformationFactory("dae." + d).apply_to(self.m, **dae_kwds)\<close>,
    which may raise;
  \<^item> \<open>chi2_isf\<close>: \<^verbatim>\<open>scipy.stats.chi2.isf\<close>.
  Reading a value of the model is assumed not to raise.
\<close>

record 'm ext =
  solve :: "'m \<Rightarrow> bool \<times> 'm"
  obj_value :: "'m \<Rightarrow> pyfloat"
  var_value :: "string \<Rightarrow> 'm \<Rightarrow> pyfloat"
  var_bounds :: "string \<Rightarrow> 'm \<Rightarrow> pyfloat option \<times> pyfloat option"
  set_value :: "string \<Rightarrow> pyfloat \<Rightarrow> 'm \<Rightarrow> 'm"
  fix_var :: "string \<Rightarrow> 'm \<Rightarrow> 'm"
  unfix_var :: "string \<Rightarrow> 'm \<Rightarrow> 'm"
  transform :: "string \<Rightarrow> 'm \<Rightarrow> exc + 'm"
  chi2_isf :: "pyobj \<Rightarrow> pyfloat \<Rightarrow> pyfloat"

section \<open>The session object\<close>

text \<open>
  An instance of \<^verbatim>\<open>class PyMPLE\<close>. The attributes assigned by \<^verbatim>\<open>__init__\<close> are the
  fields \<open>model\<close> (\<^verbatim>\<open>self.m\<close>), \<open>pnames\<close>, \<open>obj\<close>, \<open>popt\<close> and \<open>pbounds\<close>
  (\<^verbatim>\<open>self.plist\<close> and \<^verbatim>\<open>self.solver\<close> are handles into the external model). The
  attributes assigned later (\<^verbatim>\<open>ctol\<close>, \<^verbatim>\<open>alpha\<close>, \<^verbatim>\<open>parub\<close>, \<^verbatim>\<open>parlb\<close>,
  \<^verbatim>\<open>var_dict\<close>, \<^verbatim>\<open>obj_dict\<close>, and whatever \<^verbatim>\<open>load_json\<close> sets) live in
  \<open>attrs\<close>, the instance dictionary: reading an absent one raises AttributeError.
\<close>

record 'm pymple =
  model :: 'm
  pnames :: "string list"
  obj :: pyfloat
  popt :: "pyfloat dict"
  pbounds :: "(pyfloat option \<times> pyfloat option) dict"
  attrs :: "string \<rightharpoonup> pyobj"

section \<open>The step engine: \<^verbatim>\<open>step_CI\<close>\<close>

text \<open>The final line that \<^verbatim>\<open>step_CI\<close> prints before it returns:
  \<^verbatim>\<open>Reached upper/lower CI!\<close>, \<^verbatim>\<open>Maximum steps taken!\<close>,
  \<^verbatim>\<open>Reached parameter upper/lower bound!\<close>, \<^verbatim>\<open>Error occured!\<close>.\<close>

datatype status = Converged | BudgetExhausted | BoundReached | SolveFailed

text \<open>
  One entry per call of the solver, in order (a history of the run, not a variable of the
  source): the iteration \<open>it\<close>, the value \<open>pval\<close> the parameter was set to, the model
  \<open>post\<close> as the call left it, and \<open>shown\<close>, what \<^verbatim>\<open>pprint\<close> prints after a
  successful solve (the error statistic and the updated step fraction), \<open>None\<close> when the
  solve raised.
\<close>

record 'm call =
  it :: int
  pval :: pyfloat
  post :: 'm
  shown :: "(pyfloat \<times> pyfloat) option"

text \<open>The tuple \<^verbatim>\<open>(pardr, states_dict, _var_dict, _obj_dict)\<close> that is returned.\<close>

type_synonym ret = "pyfloat \<times> pyfloat dict \<times> pyfloat dict \<times> pyfloat dict"

text \<open>
  What a call of \<^verbatim>\<open>step_CI\<close> leaves: the model, the history of solver calls, the
  final line printed, and the outcome: \<open>Inl e\<close> when it raises \<open>e\<close>, \<open>Inr None\<close> when
  the \<^verbatim>\<open>while\<close> loop ends and the function returns \<^verbatim>\<open>None\<close>, \<open>Inr (Some t)\<close> when it
  returns the tuple \<open>t\<close>.
\<close>

record 'm run =
  final_model :: 'm
  calls :: "'m call list"
  final :: "status option"
  outcome :: "exc + ret option"

text \<open>The values fixed before the loop (\<open>p_opt\<close> is \<^verbatim>\<open>self.popt[pname]\<close>).\<close>

record env =
  pname :: string
  dr :: string
  p_opt :: pyfloat
  bound :: pyfloat
  def_SF :: pyfloat
  ctol :: int
  etol :: pyfloat
  obj_CI :: pyfloat

text \<open>The variables of the loop (\<open>iter\<close> is \<^verbatim>\<open>i\<close>, \<open>mdl\<close> is \<^verbatim>\<open>self.m\<close>),
  and the history \<open>trace\<close>.\<close>

record 'm st =
  iter :: int
  err :: pyfloat
  pstep :: pyfloat
  pardr :: pyfloat
  nextdr :: pyfloat
  bdreach :: bool
  stepfrac :: pyfloat
  states_dict :: "pyfloat dict"
  var_dict :: "pyfloat dict"
  obj_dict :: "pyfloat dict"
  mdl :: 'm
  trace :: "'m call list"

text \<open>\<^verbatim>\<open>bdreach = nextdr > bound\<close> when stepping up, \<^verbatim>\<open>nextdr < bound\<close> otherwise.\<close>

definition reached :: "string \<Rightarrow> pyfloat \<Rightarrow> pyfloat \<Rightarrow> bool" where
  "reached d nx b = (if d = ''up'' then fgt nx b else flt nx b)"

definition finish :: "'m st \<Rightarrow> status option \<Rightarrow> exc + ret option \<Rightarrow> 'm run" where
  "finish S f out = \<lparr>final_model = mdl S, calls = trace S, final = f, outcome = out\<rparr>"

text \<open>The error statistic, \<^verbatim>\<open>2*(np.log(value(self.m.obj)) - np.log(_obj_CI))\<close>.\<close>

definition likelihood_ratio :: "pyfloat \<Rightarrow> pyfloat \<Rightarrow> pyfloat" where
  "likelihood_ratio ob base = fmul (Fin 2) (fsub (flog ob) (flog base))"

text \<open>The progress measure \<^verbatim>\<open>d\<close> of an iteration after the first:
  \<^verbatim>\<open>d = np.abs(np.log(prev) - np.log(cur)); d /= np.abs(np.log(prev))*stepfrac\<close>.\<close>

definition progress :: "pyfloat \<Rightarrow> pyfloat \<Rightarrow> pyfloat \<Rightarrow> pyfloat" where
  "progress prev cur sf = fdiv (fabs (fsub (flog prev) (flog cur))) (fmul (fabs (flog prev)) sf)"

text \<open>\<^verbatim>\<open>if d <= 0.01: stepfrac = 1.05*stepfrac else: stepfrac = def_SF\<close>\<close>

definition adjust :: "pyfloat \<Rightarrow> pyfloat \<Rightarrow> pyfloat \<Rightarrow> pyfloat" where
  "adjust d sf dflt = (if fle d (Fin 0.01) then fmul (Fin 1.05) sf else dflt)"

text \<open>
  The \<^verbatim>\<open>except\<close> block. The lookup \<^verbatim>\<open>_var_dict[prname]\<close> raises KeyError, out of
  \<^verbatim>\<open>step_CI\<close>, when the previous iteration recorded nothing.
\<close>

definition on_error :: "env \<Rightarrow> 'm st \<Rightarrow> 'm run" where
  "on_error E S =
     (let prname = join3 (pname E) (dr E) (iter S - 1);
          iname = join3 (pname E) (dr E) (iter S)
      in case map_of (var_dict S) prname of
           None \<Rightarrow> finish S None (Inl (KeyError prname))
         | Some v \<Rightarrow>
             finish S (Some SolveFailed)
               (Inr (Some (v, AList.delete iname (states_dict S),
                           AList.delete iname (var_dict S),
                           AList.delete iname (obj_dict S)))))"

text \<open>The entry of the history for the call just made, and its addition.\<close>

definition entry :: "'m st \<Rightarrow> (pyfloat \<times> pyfloat) option \<Rightarrow> 'm call" where
  "entry S sh = \<lparr>it = iter S, pval = pardr S, post = mdl S, shown = sh\<rparr>"

definition log_call :: "'m st \<Rightarrow> (pyfloat \<times> pyfloat) option \<Rightarrow> 'm st" where
  "log_call S sh = S\<lparr>trace := trace S @ [entry S sh]\<rparr>"

text \<open>
  The head of the loop body: the step is taken, the parameter is set and the model is
  solved.
  \<^verbatim>\<open>pstep = pstep + stepfrac*self.popt[pname]; pardr = self.popt[pname] + pstep\<close>
  \<^verbatim>\<open>self.plist[pname].set_value(pardr); riter = self.solver.solve(self.m); ...\<close>
  The flag is false when the solve raises.
\<close>

definition take_step :: "'m ext \<Rightarrow> env \<Rightarrow> 'm st \<Rightarrow> bool \<times> 'm st" where
  "take_step X E S =
     (let pstep' = fadd (pstep S) (fmul (stepfrac S) (p_opt E));
          pardr' = fadd (p_opt E) pstep';
          (ok, m') = solve X (set_value X (pname E) pardr' (mdl S))
      in (ok, S\<lparr>pstep := pstep', pardr := pardr', mdl := m'\<rparr>))"

text \<open>
  After a successful solve: the error statistic, the two entries of the trajectory, and
  the new step fraction. \<open>Inl\<close> carries the state at a KeyError of the lookup
  \<^verbatim>\<open>_obj_dict[prname]\<close>, which the \<^verbatim>\<open>except\<close> block then handles.
\<close>

definition record_step :: "'m ext \<Rightarrow> env \<Rightarrow> 'm st \<Rightarrow> 'm st + 'm st" where
  "record_step X E S =
     (let iname = join3 (pname E) (dr E) (iter S);
          err' = likelihood_ratio (obj_value X (mdl S)) (obj_CI E);
          S2 = S\<lparr>err := err',
                 var_dict := AList.update iname (var_value X (pname E) (mdl S)) (var_dict S),
                 obj_dict := AList.update iname (obj_value X (mdl S)) (obj_dict S)\<rparr>;
          prname = join3 (pname E) (dr E) (iter S - 1)
      in if iter S > 0 then
           (case map_of (obj_dict S2) prname of
              None \<Rightarrow> Inl S2
            | Some prev \<Rightarrow>
                Inr (S2\<lparr>stepfrac :=
                      adjust (progress prev (obj_value X (mdl S)) (stepfrac S))
                        (stepfrac S) (def_SF E)\<rparr>))
         else Inr (S2\<lparr>stepfrac := adjust err' (stepfrac S) (def_SF E)\<rparr>))"

text \<open>
  The stop conditions, in the order of the source: convergence, the last allowed
  iteration, the bound. \<open>Inl\<close> is the state for the next test of the loop condition,
  \<open>Inr\<close> the result when \<^verbatim>\<open>step_CI\<close> returns.
\<close>

definition check_stop :: "env \<Rightarrow> 'm st \<Rightarrow> 'm st + 'm run" where
  "check_stop E S =
     (if fgt (err S) (etol E) then
        Inr (finish S (Some Converged)
          (Inr (Some (pardr S, states_dict S, var_dict S, obj_dict S))))
      else if iter S = ctol E - 1 then
        Inr (finish S (Some BudgetExhausted)
          (Inr (Some ((if dr E = ''up'' then PInf else NInf),
                      states_dict S, var_dict S, obj_dict S))))
      else
        (let nextdr' = fadd (nextdr S) (fmul (p_opt E) (stepfrac S));
             bd = reached (dr E) nextdr' (bound E);
             S' = S\<lparr>nextdr := nextdr', bdreach := bd\<rparr>
         in if bd then
              Inr (finish S' (Some BoundReached)
                (Inr (Some (pardr S', states_dict S', var_dict S', obj_dict S'))))
            else Inl (S'\<lparr>iter := iter S + 1\<rparr>)))"

text \<open>One pass through the body of the \<^verbatim>\<open>while\<close> loop.\<close>

definition body :: "'m ext \<Rightarrow> env \<Rightarrow> 'm st \<Rightarrow> 'm st + 'm run" where
  "body X E S =
     (let (ok, S1) = take_step X E S
      in if \<not> ok then Inr (on_error E (log_call S1 None))
         else
           (case record_step X E S1 of
              Inl S2 \<Rightarrow> Inr (on_error E (log_call S2 None))
            | Inr S3 \<Rightarrow> check_stop E (log_call S3 (Some (err S3, stepfrac S3)))))"

definition loop_cond :: "env \<Rightarrow> 'm st \<Rightarrow> bool" where
  "loop_cond E S \<longleftrightarrow> iter S < ctol E \<and> fle (err S) (etol E) \<and> \<not> bdreach S"

text \<open>\<^verbatim>\<open>while i < ctol and err <= etol and not bdreach: ...\<close>; when the loop ends the
  function returns \<^verbatim>\<open>None\<close>.\<close>

function loop :: "'m ext \<Rightarrow> env \<Rightarrow> 'm st \<Rightarrow> 'm run" where
  "loop X E S =
     (if loop_cond E S then
        (case body X E S of Inl S' \<Rightarrow> loop X E S' | Inr r \<Rightarrow> r)
      else finish S None (Inr None))"
  by pat_completeness auto
termination
proof (relation "measure (\<lambda>(X, E, S). nat (ctol E - iter S))")
  show "wf (measure (\<lambda>(X :: 'm ext, E, S :: 'm st). nat (ctol E - iter S)))"
    by simp
next
  fix X :: "'m ext" and E and S S' :: "'m st"
  assume "loop_cond E S" and "body X E S = Inl S'"
  then have "iter S < ctol E" and "iter S' = iter S + 1"
    by (auto simp: loop_cond_def body_def take_step_def record_step_def check_stop_def
        log_call_def Let_def split: prod.splits if_splits option.splits sum.splits)
  then show "((X, E, S'), (X, E, S)) \<in> measure (\<lambda>(X, E, S). nat (ctol E - iter S))"
    by simp
qed

declare loop.simps [simp del]

text \<open>The target bound: the declared bound on the requested side when it is truthy
  (\<^verbatim>\<open>if self.pbounds[pname][1]:\<close>), else \<^verbatim>\<open>float('Inf')\<close> going up and
  \<^verbatim>\<open>1e-10\<close> going down.\<close>

definition target_bound :: "string \<Rightarrow> pyfloat option \<times> pyfloat option \<Rightarrow> pyfloat" where
  "target_bound d bs =
     (if d = ''up'' then
        (case snd bs of
           None \<Rightarrow> PInf
         | Some b \<Rightarrow> if truthy_float b then b else PInf)
      else
        (case fst bs of
           None \<Rightarrow> Fin (1 / 10 ^ 10)
         | Some b \<Rightarrow> if truthy_float b then b else Fin (1 / 10 ^ 10)))"

definition raise :: "'m pymple \<Rightarrow> exc \<Rightarrow> 'm run" where
  "raise s e = \<lparr>final_model = model s, calls = [], final = None, outcome = Inl e\<rparr>"

text \<open>
  The statements of \<^verbatim>\<open>step_CI\<close> before its loop: the fixed values and the first
  state, or the exception of a failed lookup. \<^verbatim>\<open>self.ctol\<close> is taken to be an
  \<^verbatim>\<open>int\<close>, as the bound of the counter \<^verbatim>\<open>i\<close>; another type is outside the model and
  reported as TypeError.
\<close>

definition prologue ::
  "'m ext \<Rightarrow> 'm pymple \<Rightarrow> string \<Rightarrow> string \<Rightarrow> pyfloat \<Rightarrow> exc + env \<times> 'm st" where
  "prologue X s pn d stepfrac0 =
     (case map_of (pbounds s) pn of
        None \<Rightarrow> Inl (KeyError pn)
      | Some bs \<Rightarrow>
          (let bnd = target_bound d bs;
               sf = (if d = ''up'' then stepfrac0 else fneg stepfrac0);
               bd_eps = (if d = ''up'' then Fin 0.00001 else Fin (- 0.00001))
           in (case attrs s ''ctol'' of
                 None \<Rightarrow> Inl (AttributeError ''ctol'')
               | Some c \<Rightarrow>
                   (case attrs s ''alpha'' of
                      None \<Rightarrow> Inl (AttributeError ''alpha'')
                    | Some a \<Rightarrow>
                        (case map_of (popt s) pn of
                           None \<Rightarrow> Inl (KeyError pn)
                         | Some po \<Rightarrow>
                             (case c of
                                PyInt n \<Rightarrow>
                                  Inr (\<lparr>pname = pn, dr = d, p_opt = po, bound = bnd,
                                        def_SF = sf, ctol = n,
                                        etol = chi2_isf X a (Fin 1), obj_CI = obj s\<rparr>,
                                       \<lparr>iter = 0, err = Fin 0, pstep = Fin 0, pardr = po,
                                        nextdr = fsub po bd_eps,
                                        bdreach = reached d (fsub po bd_eps) bnd,
                                        stepfrac = sf, states_dict = [], var_dict = [],
                                        obj_dict = [], mdl = model s, trace = []\<rparr>)
                              | _ \<Rightarrow> Inl TypeError))))))"

text \<open>
  \<^verbatim>\<open>step_CI(self, pname, pop=False, dr='up', stepfrac=0.01)\<close> (\<^verbatim>\<open>pop\<close> is not used).
  Any \<^verbatim>\<open>dr\<close> other than \<^verbatim>\<open>'up'\<close> steps down.
\<close>

definition step_CI :: "'m ext \<Rightarrow> 'm pymple \<Rightarrow> string \<Rightarrow> string \<Rightarrow> pyfloat \<Rightarrow> 'm run" where
  "step_CI X s pn d stepfrac0 =
     (case prologue X s pn d stepfrac0 of
        Inl e \<Rightarrow> raise s e
      | Inr (E, S0) \<Rightarrow> loop X E S0)"

section \<open>The orchestrator: \<^verbatim>\<open>get_CI\<close>\<close>

text \<open>
  The variables of \<^verbatim>\<open>get_CI\<close> across its \<^verbatim>\<open>for\<close> loop, with the model. \<open>g_stat_ub\<close>
  and \<open>g_stat_lb\<close> are history: the final line printed by the run that gave the current
  entry of \<^verbatim>\<open>parub\<close> and \<^verbatim>\<open>parlb\<close>. \<open>g_runs\<close> is history too: the calls of
  \<^verbatim>\<open>step_CI\<close> that returned, in order, each with its parameter and direction.
\<close>

record 'm acc =
  g_model :: 'm
  g_states_dict :: "pyfloat dict"
  g_parub :: "pyfloat dict"
  g_parlb :: "pyfloat dict"
  g_var_dict :: "pyfloat dict"
  g_obj_dict :: "pyfloat dict"
  g_stat_ub :: "status option dict"
  g_stat_lb :: "status option dict"
  g_runs :: "(string \<times> string \<times> 'm run) list"

text \<open>
  The body of the \<^verbatim>\<open>for\<close> loop for one parameter. \<^verbatim>\<open>'Bound: {:<.3g}'.format(b)\<close>
  raises TypeError when the bound \<open>b\<close> is \<^verbatim>\<open>None\<close>; unpacking the \<^verbatim>\<open>None\<close> that
  \<^verbatim>\<open>step_CI\<close> returns when its loop ends raises TypeError as well.
\<close>

definition profile_one :: "'m ext \<Rightarrow> 'm pymple \<Rightarrow> pyfloat \<Rightarrow> string \<Rightarrow> 'm acc \<Rightarrow> exc + 'm acc" where
  "profile_one X s sf pn A =
     (case map_of (pbounds s) pn of
        None \<Rightarrow> Inl (KeyError pn)
      | Some bs \<Rightarrow>
          (let m1 = fix_var X pn (g_model A) in
           if snd bs = None then Inl TypeError
           else
             (let up = step_CI X (s\<lparr>model := m1\<rparr>) pn ''up'' sf in
              (case outcome up of
                 Inl e \<Rightarrow> Inl e
               | Inr None \<Rightarrow> Inl TypeError
               | Inr (Some (b, upstates, upvars, upobj)) \<Rightarrow>
                   (let A1 = A\<lparr>g_parub := AList.update pn b (g_parub A),
                              g_stat_ub := AList.update pn (final up) (g_stat_ub A),
                              g_runs := g_runs A @ [(pn, ''up'', up)],
                              g_states_dict := dict_merge (g_states_dict A) upstates,
                              g_var_dict := dict_merge (g_var_dict A) upvars,
                              g_obj_dict := dict_merge (g_obj_dict A) upobj\<rparr>
                    in if fst bs = None then Inl TypeError
                       else
                         (case map_of (popt s) pn of
                            None \<Rightarrow> Inl (KeyError pn)
                          | Some po \<Rightarrow>
                              (let m2 = set_value X pn po (final_model up);
                                   dn = step_CI X (s\<lparr>model := m2\<rparr>) pn ''down'' sf
                               in (case outcome dn of
                                     Inl e \<Rightarrow> Inl e
                                   | Inr None \<Rightarrow> Inl TypeError
                                   | Inr (Some (b', dnstates, dnvars, dnobj)) \<Rightarrow>
                                       Inr (A1\<lparr>g_parlb := AList.update pn b' (g_parlb A1),
                                               g_stat_lb :=
                                                 AList.update pn (final dn) (g_stat_lb A1),
                                               g_runs := g_runs A1 @ [(pn, ''down'', dn)],
                                               g_states_dict :=
                                                 dict_merge (g_states_dict A1) dnstates,
                                               g_var_dict := dict_merge (g_var_dict A1) dnvars,
                                               g_obj_dict := dict_merge (g_obj_dict A1) dnobj,
                                               g_model := unfix_var X pn
                                                 (set_value X pn po (final_model dn))\<rparr>)))))))))"

text \<open>A \<^verbatim>\<open>for\<close> loop whose body may raise.\<close>

fun for_each :: "('a \<Rightarrow> 'b \<Rightarrow> exc + 'b) \<Rightarrow> 'a list \<Rightarrow> 'b \<Rightarrow> exc + 'b" where
  "for_each f [] A = Inr A"
| "for_each f (x # xs) A = (case f x A of Inl e \<Rightarrow> Inl e | Inr A' \<Rightarrow> for_each f xs A')"

definition float_dict :: "pyfloat dict \<Rightarrow> pyobj" where
  "float_dict d = PyDict (map (\<lambda>(k, v). (k, PyFloat v)) d)"

text \<open>What \<^verbatim>\<open>get_CI\<close> leaves when it returns: the session, the returned dictionary
  \<^verbatim>\<open>{'Lower Bound': parlb, 'Upper Bound': parub}\<close>, and the history: the final lines
  and the runs of \<^verbatim>\<open>step_CI\<close>.\<close>

record 'm ci =
  session :: "'m pymple"
  lower_bound :: "pyfloat dict"
  upper_bound :: "pyfloat dict"
  lower_status :: "status option dict"
  upper_status :: "status option dict"
  runs :: "(string \<times> string \<times> 'm run) list"

text \<open>The two assignments \<^verbatim>\<open>self.ctol = maxSteps; self.alpha = alpha\<close>.\<close>

definition set_ctol_alpha :: "'m pymple \<Rightarrow> int \<Rightarrow> pyfloat \<Rightarrow> 'm pymple" where
  "set_ctol_alpha s maxSteps alpha =
     s\<lparr>attrs := (attrs s)(''ctol'' \<mapsto> PyInt maxSteps, ''alpha'' \<mapsto> PyFloat alpha)\<rparr>"

text \<open>\<^verbatim>\<open>get_CI(self, maxSteps=100, alpha=0.05, stepfrac=0.01)\<close>; \<open>Inl e\<close> when it raises.\<close>

definition get_CI :: "'m ext \<Rightarrow> 'm pymple \<Rightarrow> int \<Rightarrow> pyfloat \<Rightarrow> pyfloat \<Rightarrow> exc + 'm ci" where
  "get_CI X s maxSteps alpha sf =
     (let s1 = set_ctol_alpha s maxSteps alpha;
          A0 = \<lparr>g_model = model s1, g_states_dict = [], g_parub = popt s1, g_parlb = popt s1,
                g_var_dict = [], g_obj_dict = [], g_stat_ub = [], g_stat_lb = [],
                g_runs = []\<rparr>
      in case for_each (profile_one X s1 sf) (pnames s1) A0 of
           Inl e \<Rightarrow> Inl e
         | Inr A \<Rightarrow>
             Inr \<lparr>session = s1\<lparr>model := g_model A,
                     attrs := (attrs s1)(''parub'' \<mapsto> float_dict (g_parub A),
                                         ''parlb'' \<mapsto> float_dict (g_parlb A),
                                         ''var_dict'' \<mapsto> float_dict (g_var_dict A),
                                         ''obj_dict'' \<mapsto> float_dict (g_obj_dict A))\<rparr>,
                   lower_bound = g_parlb A, upper_bound = g_parub A,
                   lower_status = g_stat_lb A, upper_status = g_stat_ub A,
                   runs = g_runs A\<rparr>)"

section \<open>Construction: \<^verbatim>\<open>__init__\<close>\<close>

text \<open>The calls that \<^verbatim>\<open>__init__\<close> makes on the model before it reads it, in order
  (a history).\<close>

datatype init_call = Transformed string | Solved

text \<open>
  \<^verbatim>\<open>__init__(self, model, pnames, solver, solver_kwds, tee, dae=None, dae_kwds, presolve=False)\<close>.
  The solver options go to the external solver and are not modelled. A presolve that
  raises is reported as \<open>ExternalError\<close>. The first Objective of the model, whose
  value \<^verbatim>\<open>__init__\<close> reads, is taken to be \<^verbatim>\<open>self.m.obj\<close>, which \<^verbatim>\<open>step_CI\<close>
  reads. The dictionary comprehensions over
  \<^verbatim>\<open>self.pnames\<close> assign the keys in order.
\<close>

definition comprehension :: "(string \<Rightarrow> 'v) \<Rightarrow> string list \<Rightarrow> 'v dict" where
  "comprehension f ps = fold (\<lambda>p. AList.update p (f p)) ps []"

definition init ::
  "'m ext \<Rightarrow> 'm \<Rightarrow> string list \<Rightarrow> pyobj \<Rightarrow> bool \<Rightarrow> init_call list \<times> (exc + 'm pymple)" where
  "init X m0 pns dae presolve =
     (let (h1, r1) =
            (if truthy dae \<and> presolve then
               (case dae of
                  PyStr d \<Rightarrow> ([Transformed d], transform X d m0)
                | _ \<Rightarrow> ([], Inl TypeError))
             else ([], Inr m0))
      in (case r1 of
            Inl e \<Rightarrow> (h1, Inl e)
          | Inr m1 \<Rightarrow>
              (let (h2, r2) =
                     (if presolve then
                        (case solve X m1 of
                           (True, m2) \<Rightarrow> (h1 @ [Solved], Inr m2)
                         | (False, m2) \<Rightarrow> (h1 @ [Solved], Inl ExternalError))
                      else (h1, Inr m1))
               in (case r2 of
                     Inl e \<Rightarrow> (h2, Inl e)
                   | Inr m2 \<Rightarrow>
                       (h2, Inr \<lparr>model = m2, pnames = pns, obj = obj_value X m2,
                                 popt = comprehension (\<lambda>p. var_value X p m2) pns,
                                 pbounds = comprehension (\<lambda>p. var_bounds X p m2) pns,
                                 attrs = Map.empty\<rparr>)))))"

section \<open>Export and import: \<^verbatim>\<open>to_json\<close>, \<^verbatim>\<open>load_json\<close>\<close>

text \<open>
  The file system maps a path to the content of the file, of a type \<open>'f\<close>. The JSON
  library is external: \<open>dump\<close> is \<^verbatim>\<open>json.dump\<close> (the content written for an object),
  \<open>load\<close> is \<^verbatim>\<open>json.load\<close> (the object read from a content, or an error).
\<close>

definition atts :: "string list" where
  "atts = [''alpha'', ''parub'', ''parlb'', ''var_dict'', ''obj_dict'']"

text \<open>\<^verbatim>\<open>for att in atts: sv_dict[att] = getattr(self, att)\<close>\<close>

fun gather :: "(string \<rightharpoonup> pyobj) \<Rightarrow> string list \<Rightarrow> pyobj dict \<Rightarrow> exc + pyobj dict" where
  "gather a [] sv = Inr sv"
| "gather a (att # rest) sv =
     (case a att of
        None \<Rightarrow> Inl (AttributeError att)
      | Some v \<Rightarrow> gather a rest (AList.update att v sv))"

definition to_json ::
  "(pyobj \<Rightarrow> 'f) \<Rightarrow> 'm pymple \<Rightarrow> string \<Rightarrow> (string \<rightharpoonup> 'f) \<Rightarrow> exc + (string \<rightharpoonup> 'f)" where
  "to_json dump s filename fs =
     (case gather (attrs s) atts [] of
        Inl e \<Rightarrow> Inl e
      | Inr sv \<Rightarrow> Inr (fs(filename \<mapsto> dump (PyDict sv))))"

text \<open>
  \<^verbatim>\<open>setattr(self, att, v)\<close> assigns the attribute whatever it was. An attribute that
  \<^verbatim>\<open>__init__\<close> assigned is a field here, and a field holds values of one type only:
  \<^verbatim>\<open>pnames\<close> a list of strings, \<^verbatim>\<open>obj\<close> a number, \<^verbatim>\<open>popt\<close> a dictionary of
  numbers, \<^verbatim>\<open>pbounds\<close> a dictionary of pairs \<^verbatim>\<open>[lb, ub]\<close> of numbers or \<^verbatim>\<open>None\<close>
  (an \<^verbatim>\<open>int\<close> is read as the float of the same value, as arithmetic with floats reads
  it). A value of another shape for one of them, and any value for the model, the solver,
  the handles \<^verbatim>\<open>plist\<close> or the name of a method, is outside the model and reported as
  \<open>OutsideModel\<close>. Every other attribute goes to the instance dictionary.
\<close>

fun as_float :: "pyobj \<Rightarrow> pyfloat option" where
  "as_float (PyFloat x) = Some x"
| "as_float (PyInt n) = Some (Fin (of_int n))"
| "as_float _ = None"

fun as_bound :: "pyobj \<Rightarrow> pyfloat option option" where
  "as_bound PyNone = Some None"
| "as_bound v = (case as_float v of None \<Rightarrow> None | Some x \<Rightarrow> Some (Some x))"

fun as_bounds :: "pyobj \<Rightarrow> (pyfloat option \<times> pyfloat option) option" where
  "as_bounds (PyList [lb, ub]) =
     (case (as_bound lb, as_bound ub) of
        (Some l, Some u) \<Rightarrow> Some (l, u)
      | _ \<Rightarrow> None)"
| "as_bounds _ = None"

fun as_string :: "pyobj \<Rightarrow> string option" where
  "as_string (PyStr x) = Some x"
| "as_string _ = None"

text \<open>All the items of a list, or of a dictionary, read with \<open>f\<close>; \<open>None\<close> when one of
  them cannot be. A dictionary is read in order, a later item replacing an earlier one
  with its key.\<close>

fun all_of :: "('a \<Rightarrow> 'b option) \<Rightarrow> 'a list \<Rightarrow> 'b list option" where
  "all_of f [] = Some []"
| "all_of f (x # xs) =
     (case (f x, all_of f xs) of
        (Some y, Some ys) \<Rightarrow> Some (y # ys)
      | _ \<Rightarrow> None)"

definition dict_of :: "(pyobj \<Rightarrow> 'v option) \<Rightarrow> pyobj \<Rightarrow> 'v dict option" where
  "dict_of f v =
     (case v of
        PyDict kvs \<Rightarrow>
          (case all_of (\<lambda>(k, x). case f x of None \<Rightarrow> None | Some y \<Rightarrow> Some (k, y)) kvs of
             None \<Rightarrow> None
           | Some d \<Rightarrow> Some (dict_merge [] d))
      | _ \<Rightarrow> None)"

definition unmodelled_names :: "string list" where
  "unmodelled_names =
     [''m'', ''solver'', ''plist'', ''step_CI'', ''get_CI'', ''ebarplots'', ''plot_PL'',
      ''to_json'', ''load_json'']"

definition setattr :: "'m pymple \<Rightarrow> string \<Rightarrow> pyobj \<Rightarrow> exc + 'm pymple" where
  "setattr s att v =
     (if att = ''pnames'' then
        (case v of
           PyList xs \<Rightarrow>
             (case all_of as_string xs of
                None \<Rightarrow> Inl (OutsideModel att)
              | Some ps \<Rightarrow> Inr (s\<lparr>pnames := ps\<rparr>))
         | _ \<Rightarrow> Inl (OutsideModel att))
      else if att = ''obj'' then
        (case as_float v of
           None \<Rightarrow> Inl (OutsideModel att)
         | Some x \<Rightarrow> Inr (s\<lparr>obj := x\<rparr>))
      else if att = ''popt'' then
        (case dict_of as_float v of
           None \<Rightarrow> Inl (OutsideModel att)
         | Some d \<Rightarrow> Inr (s\<lparr>popt := d\<rparr>))
      else if att = ''pbounds'' then
        (case dict_of as_bounds v of
           None \<Rightarrow> Inl (OutsideModel att)
         | Some d \<Rightarrow> Inr (s\<lparr>pbounds := d\<rparr>))
      else if att \<in> set unmodelled_names then Inl (OutsideModel att)
      else Inr (s\<lparr>attrs := (attrs s)(att \<mapsto> v)\<rparr>))"

text \<open>\<^verbatim>\<open>for att in sv_dict.keys(): setattr(self, att, sv_dict[att])\<close>\<close>

fun set_all :: "'m pymple \<Rightarrow> pyobj dict \<Rightarrow> exc + 'm pymple" where
  "set_all s [] = Inr s"
| "set_all s ((att, v) # rest) =
     (case setattr s att v of
        Inl e \<Rightarrow> Inl e
      | Inr s' \<Rightarrow> set_all s' rest)"

text \<open>\<^verbatim>\<open>load_json(self, filename)\<close>. An object that is not a dictionary has no
  \<^verbatim>\<open>keys\<close>: AttributeError. The dictionary that \<^verbatim>\<open>json.load\<close> builds holds a key once,
  with the last value the file gives it.\<close>

definition load_json ::
  "('f \<Rightarrow> exc + pyobj) \<Rightarrow> 'm pymple \<Rightarrow> string \<Rightarrow> (string \<rightharpoonup> 'f) \<Rightarrow> exc + 'm pymple" where
  "load_json load s filename fs =
     (case fs filename of
        None \<Rightarrow> Inl (FileNotFoundError filename)
      | Some content \<Rightarrow>
          (case load content of
             Inl e \<Rightarrow> Inl e
           | Inr (PyDict sv_dict) \<Rightarrow> set_all s (dict_merge [] sv_dict)
           | Inr _ \<Rightarrow> Inl (AttributeError ''keys'')))"

section \<open>A concrete model for the examples\<close>

text \<open>
  The smallest external model: its state is the current value of the one parameter
  \<^verbatim>\<open>p\<close>; the solver succeeds while that value is at most \<open>limit\<close>, and the
  objective has the value \<open>ob\<close> everywhere (a flat profile). The bounds of \<^verbatim>\<open>p\<close> are \<open>[9.5, 10.5]\<close>, and 3.84 stands for
  \<^verbatim>\<open>chi2.isf(0.05, 1)\<close>. The session has the optimum \<open>10\<close> with objective \<open>b\<close>,
  and \<^verbatim>\<open>ctol\<close> and \<^verbatim>\<open>alpha\<close> as \<^verbatim>\<open>get_CI(n, 0.05)\<close> assigns them.
\<close>

definition demo_ext :: "pyfloat \<Rightarrow> pyfloat \<Rightarrow> pyfloat ext" where
  "demo_ext limit ob =
     \<lparr>solve = (\<lambda>m. (fle m limit, m)), obj_value = (\<lambda>m. ob), var_value = (\<lambda>p m. m),
      var_bounds = (\<lambda>p m. (Some (Fin 9.5), Some (Fin 10.5))),
      set_value = (\<lambda>p v m. v), fix_var = (\<lambda>p m. m), unfix_var = (\<lambda>p m. m),
      transform = (\<lambda>d m. Inr m), chi2_isf = (\<lambda>a df. Fin 3.84)\<rparr>"

definition demo_session :: "pyfloat \<Rightarrow> int \<Rightarrow> pyfloat pymple" where
  "demo_session b n =
     \<lparr>model = Fin 10, pnames = [''p''], obj = b, popt = [(''p'', Fin 10)],
      pbounds = [(''p'', (Some (Fin 9.5), Some (Fin 10.5)))],
      attrs = [''ctol'' \<mapsto> PyInt n, ''alpha'' \<mapsto> PyFloat (Fin 0.05)]\<rparr>"

text \<open>What \<^verbatim>\<open>get_CI(100, 0.05, 0.04)\<close> leaves on that session when the solver always
  succeeds and the objective is \<open>2\<close> everywhere: both directions stop at the bound.\<close>

definition demo_result :: "pyfloat ci" where
  "demo_result =
     \<lparr>session = (demo_session (Fin 2) 100)
        \<lparr>attrs := [''ctol'' \<mapsto> PyInt 100, ''alpha'' \<mapsto> PyFloat (Fin 0.05),
            ''parub'' \<mapsto> PyDict [(''p'', PyFloat (Fin 10.82))],
            ''parlb'' \<mapsto> PyDict [(''p'', PyFloat (Fin 9.18))],
            ''var_dict'' \<mapsto> PyDict [(''p_up_0'', PyFloat (Fin 10.4)),
                (''p_up_1'', PyFloat (Fin 10.82)), (''p_down_0'', PyFloat (Fin 9.6)),
                (''p_down_1'', PyFloat (Fin 9.18))],
            ''obj_dict'' \<mapsto> PyDict [(''p_up_0'', PyFloat (Fin 2)),
                (''p_up_1'', PyFloat (Fin 2)), (''p_down_0'', PyFloat (Fin 2)),
                (''p_down_1'', PyFloat (Fin 2))]]\<rparr>,
      lower_bound = [(''p'', Fin 9.18)], upper_bound = [(''p'', Fin 10.82)],
      lower_status = [(''p'', Some BoundReached)],
      upper_status = [(''p'', Some BoundReached)],
      runs = [(''p'', ''up'', step_CI (demo_ext PInf (Fin 2)) (demo_session (Fin 2) 100)
                 ''p'' ''up'' (Fin 0.04)),
              (''p'', ''down'', step_CI (demo_ext PInf (Fin 2)) (demo_session (Fin 2) 100)
                 ''p'' ''down'' (Fin 0.04))]\<rparr>"

text \<open>
  The same model with an objective that rises: its value is \<open>ob1\<close> while the parameter is
  at most \<open>knee\<close>, and \<open>ob2\<close> beyond. With \<open>ob1 = e\<close> and \<open>ob2 = e\<^sup>3\<close> the logarithm of the
  objective rises from 1 to 3 at the knee.
\<close>

definition knee_ext :: "pyfloat \<Rightarrow> pyfloat \<Rightarrow> pyfloat \<Rightarrow> pyfloat ext" where
  "knee_ext knee ob1 ob2 =
     \<lparr>solve = (\<lambda>m. (True, m)), obj_value = (\<lambda>m. if fle m knee then ob1 else ob2),
      var_value = (\<lambda>p m. m),
      var_bounds = (\<lambda>p m. (Some (Fin 9.5), Some (Fin 10.5))),
      set_value = (\<lambda>p v m. v), fix_var = (\<lambda>p m. m), unfix_var = (\<lambda>p m. m),
      transform = (\<lambda>d m. Inr m), chi2_isf = (\<lambda>a df. Fin 3.84)\<rparr>"

text \<open>What \<^verbatim>\<open>get_CI(100, 0.05, 0.04)\<close> leaves with the knee at \<open>10.5\<close> and the optimum
  objective \<open>e\<close>: going up, the second step passes the knee and the run converges there
  with the error statistic \<open>2 * (3 - 1) = 4\<close>; going down the objective stays at \<open>e\<close> and
  the run stops at the bound.\<close>

definition knee_result :: "pyfloat ci" where
  "knee_result =
     \<lparr>session = (demo_session (Fin (exp 1)) 100)
        \<lparr>attrs := [''ctol'' \<mapsto> PyInt 100, ''alpha'' \<mapsto> PyFloat (Fin 0.05),
            ''parub'' \<mapsto> PyDict [(''p'', PyFloat (Fin 10.82))],
            ''parlb'' \<mapsto> PyDict [(''p'', PyFloat (Fin 9.18))],
            ''var_dict'' \<mapsto> PyDict [(''p_up_0'', PyFloat (Fin 10.4)),
                (''p_up_1'', PyFloat (Fin 10.82)), (''p_down_0'', PyFloat (Fin 9.6)),
                (''p_down_1'', PyFloat (Fin 9.18))],
            ''obj_dict'' \<mapsto> PyDict [(''p_up_0'', PyFloat (Fin (exp 1))),
                (''p_up_1'', PyFloat (Fin (exp 3))), (''p_down_0'', PyFloat (Fin (exp 1))),
                (''p_down_1'', PyFloat (Fin (exp 1)))]]\<rparr>,
      lower_bound = [(''p'', Fin 9.18)], upper_bound = [(''p'', Fin 10.82)],
      lower_status = [(''p'', Some BoundReached)],
      upper_status = [(''p'', Some Converged)],
      runs = [(''p'', ''up'',
               \<lparr>final_model = Fin 10.82,
                calls = [\<lparr>it = 0, pval = Fin 10.4, post = Fin 10.4,
                           shown = Some (Fin 0, Fin 0.042)\<rparr>,
                         \<lparr>it = 1, pval = Fin 10.82, post = Fin 10.82,
                           shown = Some (Fin 4, Fin 0.04)\<rparr>],
                final = Some Converged,
                outcome = Inr (Some (Fin 10.82, [],
                            [(''p_up_0'', Fin 10.4), (''p_up_1'', Fin 10.82)],
                            [(''p_up_0'', Fin (exp 1)), (''p_up_1'', Fin (exp 3))]))\<rparr>),
              (''p'', ''down'',
               \<lparr>final_model = Fin 9.18,
                calls = [\<lparr>it = 0, pval = Fin 9.6, post = Fin 9.6,
                           shown = Some (Fin 0, Fin (- 0.042))\<rparr>,
                         \<lparr>it = 1, pval = Fin 9.18, post = Fin 9.18,
                           shown = Some (Fin 0, Fin (- 0.0441))\<rparr>],
                final = Some BoundReached,
                outcome = Inr (Some (Fin 9.18, [],
                            [(''p_down_0'', Fin 9.6), (''p_down_1'', Fin 9.18)],
                            [(''p_down_0'', Fin (exp 1)), (''p_down_1'', Fin (exp 1))]))\<rparr>)]\<rparr>"

text \<open>
  A JSON library for the examples, with files that hold text. It is exact on the object
  that \<^verbatim>\<open>to_json\<close> writes after the first example above, whose text is the one
  \<^verbatim>\<open>json.dump\<close> writes; every other object is written as \<^verbatim>\<open>null\<close>.
\<close>

definition demo_object :: pyobj where
  "demo_object =
     PyDict [(''alpha'', PyFloat (Fin 0.05)),
             (''parub'', PyDict [(''p'', PyFloat (Fin 10.82))]),
             (''parlb'', PyDict [(''p'', PyFloat (Fin 9.18))]),
             (''var_dict'', PyDict [(''p_up_0'', PyFloat (Fin 10.4)),
                (''p_up_1'', PyFloat (Fin 10.82)), (''p_down_0'', PyFloat (Fin 9.6)),
                (''p_down_1'', PyFloat (Fin 9.18))]),
             (''obj_dict'', PyDict [(''p_up_0'', PyFloat (Fin 2)),
                (''p_up_1'', PyFloat (Fin 2)), (''p_down_0'', PyFloat (Fin 2)),
                (''p_down_1'', PyFloat (Fin 2))])]"

definition demo_json :: string where
  \<open>demo_json =
     ''{"alpha": 0.05, "parub": {"p": 10.82}, "parlb": {"p": 9.18}, '' @
     ''"var_dict": {"p_up_0": 10.4, "p_up_1": 10.82, "p_down_0": 9.6, "p_down_1": 9.18}, '' @
     ''"obj_dict": {"p_up_0": 2.0, "p_up_1": 2.0, "p_down_0": 2.0, "p_down_1": 2.0}}''\<close>

definition demo_dump :: "pyobj \<Rightarrow> string" where
  "demo_dump v = (if v = demo_object then demo_json else ''null'')"

definition demo_load :: "string \<Rightarrow> exc + pyobj" where
  "demo_load t = (if t = demo_json then Inr demo_object
                  else if t = ''null'' then Inr PyNone else Inl ExternalError)"

section \<open>Notions for the proofs\<close>

text \<open>Reading a decimal string back, to show that \<open>str_nat\<close> is injective.\<close>

definition nat_of_str :: "string \<Rightarrow> nat" where
  "nat_of_str cs = foldl (\<lambda>a c. 10 * a + (of_char c - 48)) 0 cs"

text \<open>The dictionary that the successful calls \<open>cs\<close> leave: one entry per call, keyed by
  its iteration, holding \<open>f\<close> of the model after the solve.\<close>

definition recorded :: "('m \<Rightarrow> pyfloat) \<Rightarrow> env \<Rightarrow> 'm call list \<Rightarrow> pyfloat dict" where
  "recorded f E cs = map (\<lambda>c. (join3 (pname E) (dr E) (it c), f (post c))) cs"

text \<open>The calls are those of the iterations \<open>0, 1, 2, ...\<close>, in order.\<close>

definition numbered :: "'m call list \<Rightarrow> bool" where
  "numbered cs \<longleftrightarrow> map it cs = map int [0..<length cs]"

text \<open>The error statistic of a call, from the objective its solve left, and the step
  fraction printed after it.\<close>

definition lr :: "'m ext \<Rightarrow> env \<Rightarrow> 'm call \<Rightarrow> pyfloat" where
  "lr X E c = likelihood_ratio (obj_value X (post c)) (obj_CI E)"

definition sf_of :: "'m call \<Rightarrow> pyfloat" where
  "sf_of c = (case shown c of Some (e, sf) \<Rightarrow> sf | None \<Rightarrow> NaN)"

text \<open>A successful call \<open>c\<close> after the calls \<open>tr\<close>: it shows its own error statistic, and
  its step fraction comes from that of the call before by the adaptive rule.\<close>

definition link :: "'m ext \<Rightarrow> env \<Rightarrow> 'm call list \<Rightarrow> 'm call \<Rightarrow> bool" where
  "link X E tr c \<longleftrightarrow>
     it c = int (length tr) \<and>
     shown c = Some (lr X E c, sf_of c) \<and>
     sf_of c =
       (if tr = [] then adjust (lr X E c) (def_SF E) (def_SF E)
        else adjust (progress (obj_value X (post (last tr))) (obj_value X (post c))
                       (sf_of (last tr)))
               (sf_of (last tr)) (def_SF E))"

text \<open>The history at the head of the loop: successful calls, none of which exceeded the
  threshold, and all but the last passed the test \<^verbatim>\<open>err <= etol\<close> of the loop.\<close>

inductive good :: "'m ext \<Rightarrow> env \<Rightarrow> 'm call list \<Rightarrow> bool" for X E where
  good_Nil: "good X E []"
| good_snoc: "good X E tr \<Longrightarrow> (\<forall>c'\<in>set tr. fle (lr X E c') (etol E)) \<Longrightarrow> link X E tr c \<Longrightarrow>
     \<not> fgt (lr X E c) (etol E) \<Longrightarrow> good X E (tr @ [c])"

text \<open>The invariant of the loop.\<close>

definition inv :: "'m ext \<Rightarrow> env \<Rightarrow> 'm st \<Rightarrow> bool" where
  "inv X E S \<longleftrightarrow>
     good X E (trace S) \<and>
     iter S = int (length (trace S)) \<and>
     (iter S = 0 \<or> iter S < ctol E) \<and>
     var_dict S = recorded (var_value X (pname E)) E (trace S) \<and>
     obj_dict S = recorded (obj_value X) E (trace S) \<and>
     states_dict S = [] \<and>
     (if trace S = [] then stepfrac S = def_SF E
      else err S = lr X E (last (trace S)) \<and> stepfrac S = sf_of (last (trace S)))"

text \<open>Which stop condition fired, with the bound returned.\<close>

definition verdict :: "env \<Rightarrow> 'm st \<Rightarrow> status \<Rightarrow> pyfloat \<Rightarrow> bool" where
  "verdict E S f b \<longleftrightarrow>
     (fgt (err S) (etol E) \<and> f = Converged \<and> b = pardr S) \<or>
     (\<not> fgt (err S) (etol E) \<and> iter S = ctol E - 1 \<and> f = BudgetExhausted \<and>
        b = (if dr E = ''up'' then PInf else NInf)) \<or>
     (\<not> fgt (err S) (etol E) \<and> iter S \<noteq> ctol E - 1 \<and> f = BoundReached \<and> b = pardr S \<and>
        reached (dr E) (fadd (nextdr S) (fmul (p_opt E) (stepfrac S))) (bound E))"

text \<open>The three ways a run of the loop ends: the loop condition fails and \<^verbatim>\<open>None\<close> is
  returned; a solve raises; a stop condition fires after a successful solve.\<close>

definition fell_off :: "'m ext \<Rightarrow> env \<Rightarrow> 'm run \<Rightarrow> bool" where
  "fell_off X E r \<longleftrightarrow>
     good X E (calls r) \<and> (calls r = [] \<or> int (length (calls r)) < ctol E) \<and>
     outcome r = Inr None \<and> final r = None"

definition failed_at :: "'m ext \<Rightarrow> env \<Rightarrow> 'm run \<Rightarrow> bool" where
  "failed_at X E r \<longleftrightarrow>
     (\<exists>tr c. calls r = tr @ [c] \<and> good X E tr \<and> (\<forall>c'\<in>set tr. fle (lr X E c') (etol E)) \<and>
        int (length tr) < ctol E \<and> it c = int (length tr) \<and> shown c = None \<and>
        final_model r = post c \<and>
        (if tr = [] then
           outcome r = Inl (KeyError (join3 (pname E) (dr E) (- 1))) \<and> final r = None
         else
           outcome r = Inr (Some (var_value X (pname E) (post (last tr)), [],
                                  recorded (var_value X (pname E)) E tr,
                                  recorded (obj_value X) E tr)) \<and>
           final r = Some SolveFailed))"

definition stopped :: "'m ext \<Rightarrow> env \<Rightarrow> 'm run \<Rightarrow> bool" where
  "stopped X E r \<longleftrightarrow>
     (\<exists>tr c f b. calls r = tr @ [c] \<and> good X E tr \<and>
        (\<forall>c'\<in>set tr. fle (lr X E c') (etol E)) \<and>
        int (length tr) < ctol E \<and> link X E tr c \<and> final_model r = post c \<and>
        final r = Some f \<and>
        outcome r = Inr (Some (b, [], recorded (var_value X (pname E)) E (tr @ [c]),
                               recorded (obj_value X) E (tr @ [c]))) \<and>
        ((fgt (lr X E c) (etol E) \<and> f = Converged \<and> b = pval c) \<or>
         (\<not> fgt (lr X E c) (etol E) \<and> int (length tr) = ctol E - 1 \<and> f = BudgetExhausted \<and>
            b = (if dr E = ''up'' then PInf else NInf)) \<or>
         (\<not> fgt (lr X E c) (etol E) \<and> int (length tr) \<noteq> ctol E - 1 \<and> f = BoundReached \<and>
            b = pval c)))"

text \<open>A float that is neither an infinity nor NaN.\<close>

definition finite_float :: "pyfloat \<Rightarrow> bool" where
  "finite_float a \<longleftrightarrow> \<not> is_inf a \<and> \<not> is_nan a"



text \<open>In \<^verbatim>\<open>get_CI\<close>: an entry of the history of runs is a call of \<^verbatim>\<open>step_CI\<close> on the
  session, with some state of the model, for the parameter and the direction noted.\<close>

definition step_CI_run ::
  "'m ext \<Rightarrow> 'm pymple \<Rightarrow> pyfloat \<Rightarrow> string \<times> string \<times> 'm run \<Rightarrow> bool" where
  "step_CI_run X s sf t \<longleftrightarrow>
     (case t of (pn, d, r) \<Rightarrow> \<exists>m. r = step_CI X (s\<lparr>model := m\<rparr>) pn d sf)"

section \<open>Keys of the trajectory dictionaries\<close>

lemma nat_of_str_snoc: "nat_of_str (cs @ [c]) = 10 * nat_of_str cs + (of_char c - 48)"
  by (simp add: nat_of_str_def)

lemma of_char_digit: "n < 10 \<Longrightarrow> of_char (digit n) - 48 = n"
  by (simp add: digit_def)

lemma nat_of_str_str_nat: "nat_of_str (str_nat n) = n"
proof (induction n rule: str_nat.induct)
  case (1 n)
  show ?case
  proof (cases "n < 10")
    case True
    then show ?thesis
      using nat_of_str_snoc [of "[]" "digit n"]
      by (simp add: str_nat.simps [of n] of_char_digit nat_of_str_def)
  next
    case False
    then have "nat_of_str (str_nat (n div 10)) = n div 10"
      using "1" by simp
    then show ?thesis
      using False by (simp add: str_nat.simps [of n] nat_of_str_snoc of_char_digit)
  qed
qed

lemma str_nat_inj: "str_nat a = str_nat b \<Longrightarrow> a = b"
  by (metis nat_of_str_str_nat)

lemma digit_not_minus: "n < 10 \<Longrightarrow> digit n \<noteq> CHR ''-''"
proof
  assume "n < 10" and "digit n = CHR ''-''"
  then have "(of_char (digit n) :: nat) = of_char (CHR ''-'')" by simp
  then show False using \<open>n < 10\<close> by (simp add: digit_def)
qed

lemma str_nat_hd: "str_nat n \<noteq> [] \<and> hd (str_nat n) \<noteq> CHR ''-''"
proof (induction n rule: str_nat.induct)
  case (1 n)
  show ?case
  proof (cases "n < 10")
    case True
    then show ?thesis by (simp add: str_nat.simps [of n] digit_not_minus)
  next
    case False
    then show ?thesis using "1" by (simp add: str_nat.simps [of n])
  qed
qed

lemma str_int_inj: "str_int a = str_int b \<Longrightarrow> a = b"
proof -
  assume eq: "str_int a = str_int b"
  have neq: "\<And>x y. CHR ''-'' # str_nat x \<noteq> str_nat y"
    by (metis list.sel(1) str_nat_hd)
  show ?thesis
  proof (cases "a < 0")
    case True
    show ?thesis
    proof (cases "b < 0")
      case True
      with \<open>a < 0\<close> eq have "nat (- a) = nat (- b)"
        by (auto simp: str_int_def dest: str_nat_inj)
      with True \<open>a < 0\<close> show ?thesis by simp
    next
      case False
      with \<open>a < 0\<close> eq neq show ?thesis by (simp add: str_int_def)
    qed
  next
    case False
    show ?thesis
    proof (cases "b < 0")
      case True
      with False eq neq [of "nat (- b)" "nat a"] show ?thesis by (simp add: str_int_def)
    next
      case bn: False
      with False eq have "nat a = nat b"
        by (auto simp: str_int_def dest: str_nat_inj)
      with False bn show ?thesis by simp
    qed
  qed
qed

lemma join3_inj [simp]: "join3 p d a = join3 p d b \<longleftrightarrow> a = b"
  by (auto simp: join3_def dest: str_int_inj)

lemma update_fresh: "k \<notin> fst ` set al \<Longrightarrow> AList.update k v al = al @ [(k, v)]"
  by (induction al) auto

section \<open>An induction rule for the loop\<close>

lemma loop_rule:
  assumes "I S"
    and "\<And>S S'. I S \<Longrightarrow> loop_cond E S \<Longrightarrow> body X E S = Inl S' \<Longrightarrow> I S'"
    and "\<And>S r. I S \<Longrightarrow> loop_cond E S \<Longrightarrow> body X E S = Inr r \<Longrightarrow> Q r"
    and "\<And>S. I S \<Longrightarrow> \<not> loop_cond E S \<Longrightarrow> Q (finish S None (Inr None))"
  shows "Q (loop X E S)"
  using assms
proof (induction X E S rule: loop.induct)
  case (1 X E S)
  note inv = "1.prems"(1) and keep = "1.prems"(2) and stop = "1.prems"(3)
    and exit = "1.prems"(4)
  show ?case
  proof (cases "loop_cond E S")
    case False
    have "Q (finish S None (Inr None))" by (rule exit [OF inv False])
    with False show ?thesis by (simp add: loop.simps [of X E S])
  next
    case True
    show ?thesis
    proof (cases "body X E S")
      case (Inl S')
      have "I S'" by (rule keep [OF inv True Inl])
      then have "Q (loop X E S')"
        using keep stop exit by (rule "1.IH" [OF True Inl])
      with True Inl show ?thesis by (simp add: loop.simps [of X E S])
    next
      case (Inr r)
      have "Q r" by (rule stop [OF inv True Inr])
      with True Inr show ?thesis by (simp add: loop.simps [of X E S])
    qed
  qed
qed

section \<open>The dictionaries as a function of the history\<close>

lemma numbered_Nil [simp]: "numbered []"
  by (simp add: numbered_def)

lemma numbered_snoc: "numbered (cs @ [c]) \<longleftrightarrow> numbered cs \<and> it c = int (length cs)"
  by (auto simp: numbered_def)

lemma numbered_nth: "numbered cs \<Longrightarrow> j < length cs \<Longrightarrow> it (cs ! j) = int j"
  unfolding numbered_def by (metis nth_map nth_upt add_0 length_upt minus_nat.diff_0)

lemma recorded_Nil [simp]: "recorded f E [] = []"
  by (simp add: recorded_def)

lemma recorded_snoc:
  "recorded f E (cs @ [c]) = recorded f E cs @ [(join3 (pname E) (dr E) (it c), f (post c))]"
  by (simp add: recorded_def)

lemma recorded_keys:
  assumes "numbered cs"
  shows "map fst (recorded f E cs) = map (\<lambda>j. join3 (pname E) (dr E) (int j)) [0..<length cs]"
proof -
  have "map fst (recorded f E cs) = map (join3 (pname E) (dr E)) (map it cs)"
    by (simp add: recorded_def comp_def)
  also have "\<dots> = map (\<lambda>j. join3 (pname E) (dr E) (int j)) [0..<length cs]"
    using assms by (simp add: numbered_def comp_def)
  finally show ?thesis .
qed

lemma recorded_distinct: "numbered cs \<Longrightarrow> distinct (map fst (recorded f E cs))"
  by (simp add: recorded_keys distinct_map inj_on_def)

lemma recorded_fresh:
  "numbered cs \<Longrightarrow> k \<ge> int (length cs) \<or> k < 0 \<Longrightarrow> join3 (pname E) (dr E) k \<notin> fst ` set (recorded f E cs)"
proof -
  assume n: "numbered cs" and k: "k \<ge> int (length cs) \<or> k < 0"
  have "fst ` set (recorded f E cs) = set (map fst (recorded f E cs))" by simp
  also have "\<dots> = (\<lambda>j. join3 (pname E) (dr E) (int j)) ` {0..<length cs}"
    by (simp add: recorded_keys [OF n])
  finally show ?thesis using k by auto
qed

lemma map_of_recorded_None:
  "numbered cs \<Longrightarrow> k \<ge> int (length cs) \<or> k < 0 \<Longrightarrow> map_of (recorded f E cs) (join3 (pname E) (dr E) k) = None"
  by (simp add: map_of_eq_None_iff recorded_fresh)

lemma map_of_recorded_Some:
  assumes "numbered cs" "j < length cs"
  shows "map_of (recorded f E cs) (join3 (pname E) (dr E) (int j)) = Some (f (post (cs ! j)))"
proof -
  have "(join3 (pname E) (dr E) (it (cs ! j)), f (post (cs ! j))) \<in> set (recorded f E cs)"
    unfolding recorded_def using assms(2) by (auto simp: image_iff intro!: bexI [of _ "cs ! j"])
  then have "(join3 (pname E) (dr E) (int j), f (post (cs ! j))) \<in> set (recorded f E cs)"
    using numbered_nth [OF assms] by simp
  then show ?thesis
    using recorded_distinct [OF assms(1)] by simp
qed

lemma update_recorded:
  assumes "numbered cs"
  shows "AList.update (join3 (pname E) (dr E) (int (length cs))) v (recorded f E cs)
         = recorded f E cs @ [(join3 (pname E) (dr E) (int (length cs)), v)]"
  by (rule update_fresh) (simp add: recorded_fresh [OF assms])

lemma delete_recorded:
  assumes "numbered cs"
  shows "AList.delete (join3 (pname E) (dr E) (int (length cs))) (recorded f E cs) = recorded f E cs"
  using recorded_fresh [OF assms, of "int (length cs)" E f]
  by (simp add: image_iff)

section \<open>The parts of the loop body\<close>

lemma good_numbered: "good X E tr \<Longrightarrow> numbered tr"
  by (induction rule: good.induct) (auto simp: numbered_snoc link_def)

lemma take_step_fields:
  assumes "take_step X E S = (ok, S1)"
  shows "iter S1 = iter S" "err S1 = err S" "nextdr S1 = nextdr S" "bdreach S1 = bdreach S"
    "stepfrac S1 = stepfrac S" "states_dict S1 = states_dict S" "var_dict S1 = var_dict S"
    "obj_dict S1 = obj_dict S" "trace S1 = trace S"
    "pstep S1 = fadd (pstep S) (fmul (stepfrac S) (p_opt E))"
    "pardr S1 = fadd (p_opt E) (pstep S1)"
    "solve X (set_value X (pname E) (pardr S1) (mdl S)) = (ok, mdl S1)"
  using assms by (auto simp: take_step_def Let_def split: prod.splits)

lemma record_step_fields:
  assumes "record_step X E S = Inr S3"
  shows "iter S3 = iter S" "pstep S3 = pstep S" "pardr S3 = pardr S" "nextdr S3 = nextdr S"
    "bdreach S3 = bdreach S" "states_dict S3 = states_dict S" "mdl S3 = mdl S"
    "trace S3 = trace S"
    "err S3 = likelihood_ratio (obj_value X (mdl S)) (obj_CI E)"
    "var_dict S3 = AList.update (join3 (pname E) (dr E) (iter S))
                     (var_value X (pname E) (mdl S)) (var_dict S)"
    "obj_dict S3 = AList.update (join3 (pname E) (dr E) (iter S))
                     (obj_value X (mdl S)) (obj_dict S)"
  using assms by (auto simp: record_step_def Let_def split: if_splits option.splits)

lemma record_step_stepfrac:
  assumes "record_step X E S = Inr S3"
  shows "stepfrac S3 =
     (if iter S > 0 then
        (case map_of (obj_dict S3) (join3 (pname E) (dr E) (iter S - 1)) of
           Some prev \<Rightarrow> adjust (progress prev (obj_value X (mdl S)) (stepfrac S)) (stepfrac S) (def_SF E)
         | None \<Rightarrow> NaN)
      else adjust (err S3) (stepfrac S) (def_SF E))"
  using assms by (auto simp: record_step_def Let_def split: if_splits option.splits)

lemma record_step_Inl:
  assumes "record_step X E S = Inl S2"
  shows "iter S > 0"
    "map_of (AList.update (join3 (pname E) (dr E) (iter S))
                     (obj_value X (mdl S)) (obj_dict S)) (join3 (pname E) (dr E) (iter S - 1)) = None"
  using assms by (auto simp: record_step_def Let_def split: if_splits option.splits)

lemma body_Inl_D:
  assumes "body X E S = Inl S'"
  obtains S1 S3 where "take_step X E S = (True, S1)" "record_step X E S1 = Inr S3"
    "check_stop E (log_call S3 (Some (err S3, stepfrac S3))) = Inl S'"
  using assms by (auto simp: body_def Let_def split: prod.splits if_splits sum.splits)

lemma body_Inr_D:
  assumes "body X E S = Inr r"
  obtains (failed) S1 where "take_step X E S = (False, S1)" "r = on_error E (log_call S1 None)"
  | (nokey) S1 S2 where "take_step X E S = (True, S1)" "record_step X E S1 = Inl S2"
      "r = on_error E (log_call S2 None)"
  | (stop) S1 S3 where "take_step X E S = (True, S1)" "record_step X E S1 = Inr S3"
    "check_stop E (log_call S3 (Some (err S3, stepfrac S3))) = Inr r"
  using assms by (auto simp: body_def Let_def split: prod.splits if_splits sum.splits)

lemma check_stop_Inl:
  assumes "check_stop E S = Inl S'"
  shows "\<not> fgt (err S) (etol E)" "iter S \<noteq> ctol E - 1" "iter S' = iter S + 1"
    "trace S' = trace S" "var_dict S' = var_dict S" "obj_dict S' = obj_dict S"
    "states_dict S' = states_dict S" "err S' = err S" "stepfrac S' = stepfrac S"
    "pstep S' = pstep S" "pardr S' = pardr S" "mdl S' = mdl S"
    "nextdr S' = fadd (nextdr S) (fmul (p_opt E) (stepfrac S))"
    "bdreach S' = reached (dr E) (nextdr S') (bound E)" "\<not> bdreach S'"
  using assms by (auto simp: check_stop_def Let_def split: if_splits)

lemma check_stop_Inr:
  assumes "check_stop E S = Inr r"
  shows "calls r = trace S" "final_model r = mdl S"
    "\<exists>f b. final r = Some f \<and> outcome r = Inr (Some (b, states_dict S, var_dict S, obj_dict S)) \<and>
       verdict E S f b"
  using assms by (auto simp: check_stop_def verdict_def finish_def Let_def split: if_splits)

lemma on_error_fields:
  "calls (on_error E S) = trace S" "final_model (on_error E S) = mdl S"
  by (auto simp: on_error_def finish_def Let_def split: option.splits)

lemma log_call_fields:
  "trace (log_call S sh) = trace S @ [entry S sh]" "iter (log_call S sh) = iter S"
  "err (log_call S sh) = err S" "pstep (log_call S sh) = pstep S"
  "pardr (log_call S sh) = pardr S" "nextdr (log_call S sh) = nextdr S"
  "bdreach (log_call S sh) = bdreach S" "stepfrac (log_call S sh) = stepfrac S"
  "states_dict (log_call S sh) = states_dict S" "var_dict (log_call S sh) = var_dict S"
  "obj_dict (log_call S sh) = obj_dict S" "mdl (log_call S sh) = mdl S"
  by (simp_all add: log_call_def)

lemma entry_fields:
  "it (entry S sh) = iter S" "pval (entry S sh) = pardr S" "post (entry S sh) = mdl S"
  "shown (entry S sh) = sh"
  by (simp_all add: entry_def)

section \<open>The invariant is kept\<close>

lemma recorded_state:
  assumes i: "inv X E S" and t: "take_step X E S = (True, S1)"
    and r: "record_step X E S1 = Inr S3"
  defines "c \<equiv> entry S3 (Some (err S3, stepfrac S3))"
  shows "link X E (trace S) c"
    and "var_dict S3 = recorded (var_value X (pname E)) E (trace S @ [c])"
    and "obj_dict S3 = recorded (obj_value X) E (trace S @ [c])"
    and "err S3 = lr X E c" and "stepfrac S3 = sf_of c" and "states_dict S3 = []"
proof -
  note tf = take_step_fields [OF t] and rf = record_step_fields [OF r]
  have num: "numbered (trace S)" using i by (auto simp: inv_def intro: good_numbered)
  have it: "iter S = int (length (trace S))" using i by (simp add: inv_def)
  have vd: "var_dict S = recorded (var_value X (pname E)) E (trace S)"
    and od: "obj_dict S = recorded (obj_value X) E (trace S)"
    using i by (simp_all add: inv_def)
  have cf: "it c = iter S" "post c = mdl S1" "shown c = Some (err S3, stepfrac S3)"
    by (simp_all add: c_def entry_fields rf tf)
  show e: "err S3 = lr X E c"
    by (simp add: lr_def cf rf)
  show s: "stepfrac S3 = sf_of c"
    by (simp add: sf_of_def cf)
  show v3: "var_dict S3 = recorded (var_value X (pname E)) E (trace S @ [c])"
    by (simp add: rf tf vd it update_recorded [OF num] recorded_snoc cf)
  show o3: "obj_dict S3 = recorded (obj_value X) E (trace S @ [c])"
    by (simp add: rf tf od it update_recorded [OF num] recorded_snoc cf)
  show "states_dict S3 = []" using i by (simp add: rf tf inv_def)
  have sf: "sf_of c =
       (if trace S = [] then adjust (lr X E c) (def_SF E) (def_SF E)
        else adjust (progress (obj_value X (post (last (trace S)))) (obj_value X (post c))
                       (sf_of (last (trace S))))
               (sf_of (last (trace S))) (def_SF E))"
  proof (cases "trace S = []")
    case True
    then have "iter S1 = 0" "stepfrac S1 = def_SF E"
      using i by (simp_all add: tf inv_def)
    then show ?thesis
      using True record_step_stepfrac [OF r] by (simp add: s [symmetric] e [symmetric])
  next
    case False
    then have pos: "iter S1 > 0" using it by (simp add: tf)
    have sfS: "stepfrac S1 = sf_of (last (trace S))"
      using i False by (simp add: tf inv_def)
    have n2: "numbered (trace S @ [c])"
      using num cf it by (simp add: numbered_snoc)
    have "iter S1 - 1 = int (length (trace S) - 1)"
      using False it by (cases "trace S") (simp_all add: tf)
    then have "map_of (obj_dict S3) (join3 (pname E) (dr E) (iter S1 - 1))
          = Some (obj_value X (post ((trace S @ [c]) ! (length (trace S) - 1))))"
      using False by (simp add: o3 map_of_recorded_Some [OF n2])
    also have "(trace S @ [c]) ! (length (trace S) - 1) = last (trace S)"
      using False by (simp add: nth_append last_conv_nth)
    finally show ?thesis
      using False pos record_step_stepfrac [OF r]
      by (simp add: s [symmetric] sfS cf)
  qed
  show "link X E (trace S) c"
    unfolding link_def using sf e s by (simp add: cf it)
qed

lemma no_keyerror:
  assumes i: "inv X E S" and t: "take_step X E S = (True, S1)"
  shows "record_step X E S1 \<noteq> Inl S2"
proof
  assume r: "record_step X E S1 = Inl S2"
  note tf = take_step_fields [OF t] and rf = record_step_Inl [OF r]
  have num: "numbered (trace S)" using i by (auto simp: inv_def intro: good_numbered)
  have it: "iter S = int (length (trace S))" using i by (simp add: inv_def)
  have od: "obj_dict S = recorded (obj_value X) E (trace S)"
    using i by (simp add: inv_def)
  define c :: "'a call" where "c = \<lparr>it = iter S, pval = NaN, post = mdl S1, shown = None\<rparr>"
  have n2: "numbered (trace S @ [c])"
    using num it by (simp add: numbered_snoc c_def)
  have ne: "trace S \<noteq> []" using rf(1) it by (auto simp: tf)
  have "iter S1 - 1 = int (length (trace S) - 1)"
    using ne it by (cases "trace S") (simp_all add: tf)
  moreover have "AList.update (join3 (pname E) (dr E) (iter S1)) (obj_value X (mdl S1)) (obj_dict S1)
     = recorded (obj_value X) E (trace S @ [c])"
    by (simp add: tf od it update_recorded [OF num] recorded_snoc c_def)
  ultimately show False
    using rf(2) ne by (simp add: map_of_recorded_Some [OF n2])
qed

lemma inv_keep:
  assumes i: "inv X E S" and lc: "loop_cond E S" and b: "body X E S = Inl S'"
  shows "inv X E S'"
proof -
  from b obtain S1 S3 where t: "take_step X E S = (True, S1)"
    and r: "record_step X E S1 = Inr S3"
    and c: "check_stop E (log_call S3 (Some (err S3, stepfrac S3))) = Inl S'"
    by (rule body_Inl_D)
  note rs = recorded_state [OF i t r] and cs = check_stop_Inl [OF c]
    and tf = take_step_fields [OF t] and rf = record_step_fields [OF r]
  let ?c = "entry S3 (Some (err S3, stepfrac S3))"
  have g: "good X E (trace S)" using i by (simp add: inv_def)
  have fl: "\<forall>c'\<in>set (trace S). fle (lr X E c') (etol E)"
  proof (cases "trace S" rule: rev_cases)
    case Nil then show ?thesis by simp
  next
    case (snoc ys y)
    then have "fle (lr X E y) (etol E)"
      using i lc by (simp add: inv_def loop_cond_def)
    moreover have "\<forall>c'\<in>set ys. fle (lr X E c') (etol E)"
      using g snoc by (cases rule: good.cases) auto
    ultimately show ?thesis
      using snoc by simp
  qed
  have tr': "trace S' = trace S @ [?c]"
    by (simp add: cs(4) log_call_fields rf tf)
  have "\<not> fgt (lr X E ?c) (etol E)"
    using cs(1) rs(4) by (simp add: log_call_fields)
  then have g': "good X E (trace S')"
    unfolding tr' using g fl rs(1) by (intro good_snoc)
  have "iter S' = int (length (trace S'))"
    using i by (simp add: tr' cs(3) log_call_fields rf tf inv_def)
  moreover have "var_dict S' = recorded (var_value X (pname E)) E (trace S')"
    unfolding tr' using rs(2) by (simp add: cs(5) log_call_fields)
  moreover have "obj_dict S' = recorded (obj_value X) E (trace S')"
    unfolding tr' using rs(3) by (simp add: cs(6) log_call_fields)
  moreover have "states_dict S' = []"
    using rs(6) by (simp add: cs(7) log_call_fields)
  moreover have "err S' = lr X E (last (trace S'))"
    unfolding tr' using rs(4) by (simp add: cs(8) log_call_fields)
  moreover have "stepfrac S' = sf_of (last (trace S'))"
    unfolding tr' using rs(5) by (simp add: cs(9) log_call_fields)
  moreover have "iter S' < ctol E"
    using lc cs(2) by (auto simp: cs(3) log_call_fields rf tf loop_cond_def)
  moreover have "trace S' \<noteq> []" by (simp add: tr')
  ultimately show ?thesis
    unfolding inv_def using g' by simp
qed

section \<open>How a run ends\<close>

lemma inv_all_fle:
  assumes i: "inv X E S" and lc: "loop_cond E S"
  shows "\<forall>c'\<in>set (trace S). fle (lr X E c') (etol E)"
proof (cases "trace S" rule: rev_cases)
  case Nil then show ?thesis by simp
next
  case (snoc ys y)
  have g: "good X E (trace S)" using i by (simp add: inv_def)
  have "fle (lr X E y) (etol E)"
    using i lc snoc by (simp add: inv_def loop_cond_def)
  moreover have "\<forall>c'\<in>set ys. fle (lr X E c') (etol E)"
    using g snoc by (cases rule: good.cases) auto
  ultimately show ?thesis
    using snoc by simp
qed

lemma on_error_spec:
  assumes i: "inv X E S" and lc: "loop_cond E S" and t: "take_step X E S = (False, S1)"
  shows "failed_at X E (on_error E (log_call S1 None))"
proof -
  note tf = take_step_fields [OF t]
  let ?c = "entry S1 None" and ?r = "on_error E (log_call S1 None)"
  have g: "good X E (trace S)" using i by (simp add: inv_def)
  have num: "numbered (trace S)" using g by (rule good_numbered)
  have it: "iter S = int (length (trace S))" using i by (simp add: inv_def)
  have vd: "var_dict S = recorded (var_value X (pname E)) E (trace S)"
    and od: "obj_dict S = recorded (obj_value X) E (trace S)"
    and sd: "states_dict S = []"
    using i by (simp_all add: inv_def)
  have "calls ?r = trace S @ [?c]"
    by (simp add: on_error_fields log_call_fields tf)
  moreover have "int (length (trace S)) < ctol E"
    using lc it by (simp add: loop_cond_def)
  moreover have "it ?c = int (length (trace S))" "shown ?c = None" "final_model ?r = post ?c"
    by (simp_all add: entry_fields on_error_fields log_call_fields tf it)
  moreover have "trace S = [] \<Longrightarrow>
      outcome ?r = Inl (KeyError (join3 (pname E) (dr E) (- 1))) \<and> final ?r = None"
    using it by (simp add: on_error_def log_call_fields vd tf finish_def Let_def)
  moreover have "outcome ?r = Inr (Some (var_value X (pname E) (post (last (trace S))), [],
                                  recorded (var_value X (pname E)) E (trace S),
                                  recorded (obj_value X) E (trace S))) \<and>
           final ?r = Some SolveFailed" if ne: "trace S \<noteq> []"
  proof -
    have "iter S - 1 = int (length (trace S) - 1)"
      using ne it by (cases "trace S") simp_all
    then have "map_of (var_dict S) (join3 (pname E) (dr E) (iter S - 1))
        = Some (var_value X (pname E) (post (trace S ! (length (trace S) - 1))))"
      using ne by (simp add: vd map_of_recorded_Some [OF num])
    then have "map_of (var_dict S) (join3 (pname E) (dr E) (iter S - 1))
        = Some (var_value X (pname E) (post (last (trace S))))"
      using ne by (simp add: last_conv_nth)
    then show ?thesis
      using delete_recorded [OF num, of E "var_value X (pname E)"]
        delete_recorded [OF num, of E "obj_value X"]
      by (simp add: on_error_def log_call_fields tf finish_def Let_def sd it
          vd [symmetric] od [symmetric])
  qed
  ultimately show ?thesis
    unfolding failed_at_def using g inv_all_fle [OF i lc]
    by (intro exI [of _ "trace S"] exI [of _ ?c]) simp
qed

lemma check_stop_spec:
  assumes i: "inv X E S" and lc: "loop_cond E S" and t: "take_step X E S = (True, S1)"
    and r: "record_step X E S1 = Inr S3"
    and c: "check_stop E (log_call S3 (Some (err S3, stepfrac S3))) = Inr r"
  shows "stopped X E r"
proof -
  note rs = recorded_state [OF i t r] and cs = check_stop_Inr [OF c]
    and tf = take_step_fields [OF t] and rf = record_step_fields [OF r]
  let ?c = "entry S3 (Some (err S3, stepfrac S3))"
  let ?L = "log_call S3 (Some (err S3, stepfrac S3))"
  have g: "good X E (trace S)" using i by (simp add: inv_def)
  have it: "iter S = int (length (trace S))" using i by (simp add: inv_def)
  from cs(3) obtain f b where f: "final r = Some f"
    and out: "outcome r = Inr (Some (b, states_dict ?L, var_dict ?L, obj_dict ?L))"
    and v: "verdict E ?L f b" by blast
  have e: "err ?L = lr X E ?c" using rs(4) by (simp add: log_call_fields)
  have "calls r = trace S @ [?c]"
    by (simp add: cs(1) log_call_fields rf tf)
  moreover have "int (length (trace S)) < ctol E"
    using lc it by (simp add: loop_cond_def)
  moreover have "final_model r = post ?c"
    by (simp add: cs(2) log_call_fields entry_fields)
  moreover have "outcome r = Inr (Some (b, [], recorded (var_value X (pname E)) E (trace S @ [?c]),
                               recorded (obj_value X) E (trace S @ [?c])))"
    using rs(2,3,6) by (simp add: out log_call_fields)
  moreover have "(fgt (lr X E ?c) (etol E) \<and> f = Converged \<and> b = pval ?c) \<or>
         (\<not> fgt (lr X E ?c) (etol E) \<and> int (length (trace S)) = ctol E - 1 \<and>
            f = BudgetExhausted \<and> b = (if dr E = ''up'' then PInf else NInf)) \<or>
         (\<not> fgt (lr X E ?c) (etol E) \<and> int (length (trace S)) \<noteq> ctol E - 1 \<and>
            f = BoundReached \<and> b = pval ?c)"
    using v unfolding verdict_def e
    by (auto simp: log_call_fields entry_fields rf tf it)
  ultimately show ?thesis
    unfolding stopped_def using g inv_all_fle [OF i lc] rs(1) f
    by (intro exI [of _ "trace S"] exI [of _ ?c] exI [of _ f] exI [of _ b]) simp
qed

lemma body_ends:
  assumes i: "inv X E S" and lc: "loop_cond E S" and b: "body X E S = Inr r"
  shows "failed_at X E r \<or> stopped X E r"
  using b
proof (cases rule: body_Inr_D)
  case (failed S1)
  then show ?thesis using on_error_spec [OF i lc] by simp
next
  case (nokey S1 S2)
  then show ?thesis using no_keyerror [OF i] by blast
next
  case (stop S1 S3)
  then show ?thesis using check_stop_spec [OF i lc] by blast
qed

theorem run_spec:
  assumes "inv X E S"
  shows "fell_off X E (loop X E S) \<or> failed_at X E (loop X E S) \<or> stopped X E (loop X E S)"
proof (rule loop_rule [where I = "inv X E" and Q = "\<lambda>r. fell_off X E r \<or> failed_at X E r \<or> stopped X E r"])
  show "inv X E S" by fact
next
  fix S S' assume "inv X E S" "loop_cond E S" "body X E S = Inl S'"
  then show "inv X E S'" by (rule inv_keep)
next
  fix S r assume "inv X E S" "loop_cond E S" "body X E S = Inr r"
  then show "fell_off X E r \<or> failed_at X E r \<or> stopped X E r"
    using body_ends by blast
next
  fix S assume "inv X E S" "\<not> loop_cond E S"
  then show "fell_off X E (finish S None (Inr None)) \<or> failed_at X E (finish S None (Inr None))
     \<or> stopped X E (finish S None (Inr None))"
    by (auto simp: fell_off_def finish_def inv_def)
qed

lemma prologue_Inr:
  assumes "prologue X s pn d sf = Inr (E, S0)"
  shows "pname E = pn" "dr E = d" "obj_CI E = obj s"
    "attrs s ''ctol'' = Some (PyInt (ctol E))"
    "\<exists>a. attrs s ''alpha'' = Some a \<and> etol E = chi2_isf X a (Fin 1)"
    "map_of (popt s) pn = Some (p_opt E)"
    "\<exists>bs. map_of (pbounds s) pn = Some bs \<and> bound E = target_bound d bs"
    "def_SF E = (if d = ''up'' then sf else fneg sf)"
    "iter S0 = 0" "trace S0 = []" "var_dict S0 = []" "obj_dict S0 = []" "states_dict S0 = []"
    "stepfrac S0 = def_SF E" "pstep S0 = Fin 0" "mdl S0 = model s"
    "nextdr S0 = fsub (p_opt E) (if d = ''up'' then Fin 0.00001 else Fin (- 0.00001))"
    "bdreach S0 = reached d (nextdr S0) (bound E)"
  using assms
  by (auto simp: prologue_def Let_def split: option.splits pyobj.splits)

lemma prologue_inv: "prologue X s pn d sf = Inr (E, S0) \<Longrightarrow> inv X E S0"
  by (simp add: inv_def prologue_Inr good_Nil)

lemma step_CI_cases:
  obtains (raised) e where "prologue X s pn d sf = Inl e" "step_CI X s pn d sf = raise s e"
  | (fell) E S0 where "prologue X s pn d sf = Inr (E, S0)" "fell_off X E (step_CI X s pn d sf)"
  | (failed) E S0 where "prologue X s pn d sf = Inr (E, S0)" "failed_at X E (step_CI X s pn d sf)"
  | (stopped) E S0 where "prologue X s pn d sf = Inr (E, S0)" "stopped X E (step_CI X s pn d sf)"
proof (cases "prologue X s pn d sf")
  case (Inl e)
  then show ?thesis using raised by (simp add: step_CI_def)
next
  case (Inr p)
  obtain E S0 where p: "p = (E, S0)" by (cases p)
  have "step_CI X s pn d sf = loop X E S0" using Inr p by (simp add: step_CI_def)
  then show ?thesis
    using run_spec [OF prologue_inv, of X s pn d sf E S0] Inr p fell failed stopped by auto
qed

lemma good_shown: "good X E tr \<Longrightarrow> c \<in> set tr \<Longrightarrow>
    shown c = Some (lr X E c, sf_of c) \<and> \<not> fgt (lr X E c) (etol E)"
  by (induction rule: good.induct) (auto simp: link_def)

lemma raise_fields:
  "calls (raise s e) = []" "outcome (raise s e) = Inl e" "final (raise s e) = None"
  "final_model (raise s e) = model s"
  by (simp_all add: raise_def)

lemma fell_off_shown: "fell_off X E r \<Longrightarrow> c \<in> set (calls r) \<Longrightarrow> shown c \<noteq> None"
  using good_shown [of X E "calls r" c] by (auto simp: fell_off_def)

lemma stopped_shown:
  assumes "stopped X E r" "c \<in> set (calls r)"
  shows "shown c \<noteq> None"
proof -
  from assms(1) obtain tr c0 where cl: "calls r = tr @ [c0]" and g: "good X E tr"
    and l: "link X E tr c0"
    unfolding stopped_def by blast
  show ?thesis
  proof (cases "c = c0")
    case True
    then show ?thesis using l by (simp add: link_def)
  next
    case False
    then have "c \<in> set tr" using assms(2) cl by simp
    then show ?thesis using good_shown [OF g] by simp
  qed
qed

section \<open>Evaluating a run\<close>

lemma digit_values:
  "digit 0 = CHR ''0''" "digit 1 = CHR ''1''" "digit 2 = CHR ''2''" "digit 3 = CHR ''3''"
  "digit 4 = CHR ''4''" "digit 5 = CHR ''5''" "digit 6 = CHR ''6''" "digit 7 = CHR ''7''"
  "digit 8 = CHR ''8''" "digit 9 = CHR ''9''" "digit (Suc 0) = CHR ''1''"
  by (simp_all add: digit_def char_of_def bit_iff_odd_drop_bit drop_bit_eq_div)

lemmas float_defs =
  fadd_def fsub_def fmul_def fdiv_def fgt_def fin_def zero_s_def inf_s_def truthy_float_def

lemmas run_defs =
  step_CI_def prologue_def raise_def target_bound_def reached_def loop.simps loop_cond_def
  body_def take_step_def record_step_def check_stop_def log_call_def entry_def on_error_def
  finish_def likelihood_ratio_def progress_def adjust_def Let_def
  join3_def str_int_def str_nat.simps digit_values

lemmas demo_defs = demo_ext_def demo_session_def

lemmas knee_defs = knee_ext_def demo_session_def

section \<open>Solver failure\<close>

text \<open>
  Claim C1. When a solve of a run of \<^verbatim>\<open>step_CI\<close> fails at an iteration \<open>k > 0\<close>
  (the call \<open>c\<close> of the history, with nothing shown), the calls before it are those of
  the iterations \<open>0 .. k - 1\<close>, all successful, and \<open>c\<close> is the last call: the failed
  solve is not tried again. The run prints \<^verbatim>\<open>Error occured!\<close> and returns, as its
  bound, the value of the parameter recorded at iteration \<open>k - 1\<close>, which is the entry
  of the returned \<^verbatim>\<open>_var_dict\<close> under the key of \<open>k - 1\<close>; the returned dictionaries
  have no entry under the key of iteration \<open>k\<close> (\<^verbatim>\<open>states_dict\<close> is empty).
\<close>

theorem solve_failure_rolls_back:
  assumes c: "c \<in> set (calls (step_CI X s pn d sf))" and sh: "shown c = None"
    and pos: "0 < it c"
  shows "\<exists>tr b vd od.
           calls (step_CI X s pn d sf) = tr @ [c] \<and>
           map it tr = map int [0..<length tr] \<and> it c = int (length tr) \<and>
           (\<forall>c'\<in>set tr. shown c' \<noteq> None) \<and>
           final (step_CI X s pn d sf) = Some SolveFailed \<and>
           outcome (step_CI X s pn d sf) = Inr (Some (b, [], vd, od)) \<and>
           b = var_value X pn (post (last tr)) \<and>
           map_of vd (join3 pn d (it c - 1)) = Some b \<and>
           map_of vd (join3 pn d (it c)) = None \<and>
           map_of od (join3 pn d (it c)) = None"
proof (cases rule: step_CI_cases [of X s pn d sf])
  case (raised e)
  then show ?thesis using c by (simp add: raise_fields)
next
  case (fell E S0)
  then show ?thesis using c sh fell_off_shown by blast
next
  case (stopped E S0)
  then show ?thesis using c sh stopped_shown by blast
next
  case (failed E S0)
  note pf = prologue_Inr [OF failed(1)]
  from failed(2) obtain tr c0 where cl: "calls (step_CI X s pn d sf) = tr @ [c0]"
    and g: "good X E tr" and itc: "it c0 = int (length tr)" and "shown c0 = None"
    and out: "if tr = [] then
           outcome (step_CI X s pn d sf) = Inl (KeyError (join3 (pname E) (dr E) (- 1))) \<and>
           final (step_CI X s pn d sf) = None
         else
           outcome (step_CI X s pn d sf)
             = Inr (Some (var_value X (pname E) (post (last tr)), [],
                                  recorded (var_value X (pname E)) E tr,
                                  recorded (obj_value X) E tr)) \<and>
           final (step_CI X s pn d sf) = Some SolveFailed"
    unfolding failed_at_def by blast
  have num: "numbered tr" using g by (rule good_numbered)
  have "c \<notin> set tr" using sh good_shown [OF g, of c] by auto
  then have cc: "c = c0" using c cl by simp
  then have ne: "tr \<noteq> []" using pos itc by auto
  have k1: "it c - 1 = int (length tr - 1)"
    using ne itc cc by (cases tr) simp_all
  have "map_of (recorded (var_value X (pname E)) E tr) (join3 (pname E) (dr E) (it c - 1))
       = Some (var_value X (pname E) (post (last tr)))"
    using ne by (simp add: k1 map_of_recorded_Some [OF num] last_conv_nth)
  moreover have "map_of (recorded f E tr) (join3 (pname E) (dr E) (it c)) = None" for f
    using itc cc by (simp add: map_of_recorded_None [OF num])
  ultimately show ?thesis
    using cl cc itc ne out num good_shown [OF g]
    by (intro exI [of _ tr]) (auto simp: pf numbered_def)
qed

theorem solve_failure_rolls_back_witness:
  "let X = demo_ext (Fin 10.15) (Fin 2);
       r = step_CI X (demo_session (Fin 2) 100) ''p'' ''up'' (Fin 0.01);
       c = \<lparr>it = 1, pval = Fin 10.205, post = Fin 10.205, shown = None\<rparr>
   in c \<in> set (calls r) \<and> shown c = None \<and> 0 < it c \<and>
      outcome r = Inr (Some (Fin 10.1, [], [(''p_up_0'', Fin 10.1)], [(''p_up_0'', Fin 2)])) \<and>
      (\<exists>tr. calls r = tr @ [c] \<and> length tr = 1)"
proof -
  define X where "X = demo_ext (Fin 10.15) (Fin 2)"
  define r where "r = step_CI X (demo_session (Fin 2) 100) ''p'' ''up'' (Fin 0.01)"
  define c :: "pyfloat call"
    where "c = \<lparr>it = 1, pval = Fin 10.205, post = Fin 10.205, shown = None\<rparr>"
  have ev: "calls r = [\<lparr>it = 0, pval = Fin 10.1, post = Fin 10.1,
                        shown = Some (Fin 0, Fin 0.0105)\<rparr>, c]"
    and out: "outcome r
      = Inr (Some (Fin 10.1, [], [(''p_up_0'', Fin 10.1)], [(''p_up_0'', Fin 2)]))"
    unfolding r_def X_def c_def by (simp_all add: run_defs float_defs demo_defs)
  have h1: "c \<in> set (calls r)" by (simp add: ev)
  have h2: "shown c = None" and h3: "0 < it c" by (simp_all add: c_def)
  from solve_failure_rolls_back [OF h1 [unfolded r_def] h2 h3]
  obtain tr where "calls r = tr @ [c]" "it c = int (length tr)"
    unfolding r_def by blast
  then have "\<exists>tr. calls r = tr @ [c] \<and> length tr = 1"
    by (auto simp: c_def)
  with h1 h2 h3 out show ?thesis
    unfolding Let_def X_def [symmetric] r_def [symmetric] c_def [symmetric] by simp
qed


text \<open>
  Claim C8. When the solve of iteration 0 fails, the \<^verbatim>\<open>except\<close> block looks up the
  record of iteration \<open>-1\<close>, which does not exist: \<^verbatim>\<open>step_CI\<close> raises KeyError for
  that key and returns nothing. The failed call is the only call, and the final line
  \<^verbatim>\<open>Error occured!\<close> is not printed.
\<close>

theorem solve_failure_at_first_iteration_raises:
  assumes c: "c \<in> set (calls (step_CI X s pn d sf))" and sh: "shown c = None"
    and zero: "it c = 0"
  shows "outcome (step_CI X s pn d sf) = Inl (KeyError (join3 pn d (- 1))) \<and>
         calls (step_CI X s pn d sf) = [c] \<and> final (step_CI X s pn d sf) = None"
proof (cases rule: step_CI_cases [of X s pn d sf])
  case (raised e)
  then show ?thesis using c by (simp add: raise_fields)
next
  case (fell E S0)
  then show ?thesis using c sh fell_off_shown by blast
next
  case (stopped E S0)
  then show ?thesis using c sh stopped_shown by blast
next
  case (failed E S0)
  note pf = prologue_Inr [OF failed(1)]
  from failed(2) obtain tr c0 where cl: "calls (step_CI X s pn d sf) = tr @ [c0]"
    and g: "good X E tr" and itc: "it c0 = int (length tr)" and "shown c0 = None"
    and out: "if tr = [] then
           outcome (step_CI X s pn d sf) = Inl (KeyError (join3 (pname E) (dr E) (- 1))) \<and>
           final (step_CI X s pn d sf) = None
         else
           outcome (step_CI X s pn d sf)
             = Inr (Some (var_value X (pname E) (post (last tr)), [],
                                  recorded (var_value X (pname E)) E tr,
                                  recorded (obj_value X) E tr)) \<and>
           final (step_CI X s pn d sf) = Some SolveFailed"
    unfolding failed_at_def by blast
  have "c \<notin> set tr" using sh good_shown [OF g, of c] by auto
  then have cc: "c = c0" using c cl by simp
  then have "tr = []" using zero itc by auto
  then show ?thesis using cl cc out by (simp add: pf)
qed

theorem solve_failure_at_first_iteration_raises_witness:
  "let X = demo_ext NInf (Fin 2);
       r = step_CI X (demo_session (Fin 2) 100) ''p'' ''up'' (Fin 0.01);
       c = \<lparr>it = 0, pval = Fin 10.1, post = Fin 10.1, shown = None\<rparr>
   in c \<in> set (calls r) \<and> shown c = None \<and> it c = 0 \<and>
      outcome r = Inl (KeyError ''p_up_-1'') \<and> calls r = [c] \<and> final r = None"
proof -
  define X where "X = demo_ext NInf (Fin 2)"
  define r where "r = step_CI X (demo_session (Fin 2) 100) ''p'' ''up'' (Fin 0.01)"
  define c :: "pyfloat call"
    where "c = \<lparr>it = 0, pval = Fin 10.1, post = Fin 10.1, shown = None\<rparr>"
  have ev: "calls r = [c]"
    unfolding r_def X_def c_def by (simp add: run_defs float_defs demo_defs)
  have h1: "c \<in> set (calls r)" by (simp add: ev)
  have h2: "shown c = None" and h3: "it c = 0" by (simp_all add: c_def)
  have k: "join3 ''p'' ''up'' (- 1) = ''p_up_-1''"
    by (simp add: join3_def str_int_def str_nat.simps digit_values)
  from solve_failure_at_first_iteration_raises [OF h1 [unfolded r_def] h2 h3]
  have "outcome r = Inl (KeyError ''p_up_-1'') \<and> calls r = [c] \<and> final r = None"
    unfolding r_def k by simp
  with h1 h2 h3 show ?thesis
    unfolding Let_def X_def [symmetric] r_def [symmetric] c_def [symmetric] by simp
qed

section \<open>The budget of steps\<close>

lemma good_butlast:
  "good X E tr \<Longrightarrow> c \<in> set (butlast tr) \<Longrightarrow> fle (lr X E c) (etol E)"
  by (cases rule: good.cases) auto

lemma in_butlast: "c \<in> set tr \<Longrightarrow> c \<noteq> last tr \<Longrightarrow> c \<in> set (butlast tr)"
  by (cases tr rule: rev_cases) auto

lemma prologue_set_ctol_alpha:
  assumes "prologue X (set_ctol_alpha s N alpha) pn d sf = Inr (E, S0)"
  shows "ctol E = N" "etol E = chi2_isf X (PyFloat alpha) (Fin 1)"
  using prologue_Inr(4,5) [OF assms] by (simp_all add: set_ctol_alpha_def)

text \<open>
  Claim C2. After \<^verbatim>\<open>get_CI\<close> has assigned \<^verbatim>\<open>self.ctol = N\<close> with \<open>N \<ge> 1\<close>, a run
  of \<^verbatim>\<open>step_CI\<close>, for any parameter and direction, calls the solver at most \<open>N\<close>
  times. When it makes \<open>N\<close> calls, all of them successful and none with an error
  statistic above the threshold, it prints \<^verbatim>\<open>Maximum steps taken!\<close> and returns
  \<open>+inf\<close> going up and \<open>-inf\<close> going down. (The test of the last allowed iteration
  comes before the test of the bound, so nothing need be assumed about the bound.)
\<close>

theorem step_budget:
  assumes N: "1 \<le> N"
  shows "length (calls (step_CI X (set_ctol_alpha s N alpha) pn d sf)) \<le> nat N \<and>
         (length (calls (step_CI X (set_ctol_alpha s N alpha) pn d sf)) = nat N \<and>
          (\<forall>c\<in>set (calls (step_CI X (set_ctol_alpha s N alpha) pn d sf)).
              \<exists>e sf'. shown c = Some (e, sf') \<and>
                      \<not> fgt e (chi2_isf X (PyFloat alpha) (Fin 1)))
          \<longrightarrow> final (step_CI X (set_ctol_alpha s N alpha) pn d sf) = Some BudgetExhausted \<and>
              (\<exists>vd od. outcome (step_CI X (set_ctol_alpha s N alpha) pn d sf)
                 = Inr (Some ((if d = ''up'' then PInf else NInf), [], vd, od))))"
    (is "length (calls ?r) \<le> nat N \<and> (?full \<longrightarrow> ?inf)")
proof (cases rule: step_CI_cases [of X "set_ctol_alpha s N alpha" pn d sf])
  case (raised e)
  then show ?thesis using N by (simp add: raise_fields)
next
  case (fell E S0)
  note pa = prologue_set_ctol_alpha [OF fell(1)]
  from fell(2) have "calls ?r = [] \<or> int (length (calls ?r)) < N"
    by (simp add: fell_off_def pa)
  then have "length (calls ?r) < nat N" using N by auto
  then show ?thesis by simp
next
  case (failed E S0)
  note pa = prologue_set_ctol_alpha [OF failed(1)]
  from failed(2) obtain tr c where cl: "calls ?r = tr @ [c]"
    and len: "int (length tr) < N" and sh: "shown c = None"
    unfolding failed_at_def pa by blast
  have "\<not> ?full" using cl sh by auto
  then show ?thesis using cl len by auto
next
  case (stopped E S0)
  note pa = prologue_set_ctol_alpha [OF stopped(1)] and pf = prologue_Inr [OF stopped(1)]
  from stopped(2) obtain tr c f b where cl: "calls ?r = tr @ [c]"
    and len: "int (length tr) < N" and l: "link X E tr c"
    and f: "final ?r = Some f"
    and out: "outcome ?r = Inr (Some (b, [], recorded (var_value X (pname E)) E (tr @ [c]),
                               recorded (obj_value X) E (tr @ [c])))"
    and v: "(fgt (lr X E c) (etol E) \<and> f = Converged \<and> b = pval c) \<or>
         (\<not> fgt (lr X E c) (etol E) \<and> int (length tr) = ctol E - 1 \<and> f = BudgetExhausted \<and>
            b = (if dr E = ''up'' then PInf else NInf)) \<or>
         (\<not> fgt (lr X E c) (etol E) \<and> int (length tr) \<noteq> ctol E - 1 \<and> f = BoundReached \<and>
            b = pval c)"
    unfolding stopped_def pa by blast
  have le: "length (calls ?r) \<le> nat N" using cl len by auto
  have "?inf" if full: ?full
  proof -
    from full have n: "int (length tr) = N - 1" using cl N by auto
    from full cl obtain e sf' where "shown c = Some (e, sf')"
      and "\<not> fgt e (chi2_isf X (PyFloat alpha) (Fin 1))" by auto
    then have "\<not> fgt (lr X E c) (etol E)"
      using l by (simp add: link_def pa)
    then have "f = BudgetExhausted \<and> b = (if d = ''up'' then PInf else NInf)"
      using v n by (auto simp: pa pf)
    then show ?thesis using f out by simp
  qed
  then show ?thesis using le by blast
qed

theorem step_budget_witness:
  "let X = demo_ext PInf (Fin 2);
       r = step_CI X (set_ctol_alpha (demo_session (Fin 2) 100) 2 (Fin 0.05)) ''p'' ''up''
             (Fin 0.01)
   in (1::int) \<le> 2 \<and> length (calls r) = 2 \<and> final r = Some BudgetExhausted \<and>
      outcome r = Inr (Some (PInf, [], [(''p_up_0'', Fin 10.1), (''p_up_1'', Fin 10.205)],
                             [(''p_up_0'', Fin 2), (''p_up_1'', Fin 2)]))"
proof -
  define X where "X = demo_ext PInf (Fin 2)"
  define r where "r = step_CI X (set_ctol_alpha (demo_session (Fin 2) 100) 2 (Fin 0.05))
     ''p'' ''up'' (Fin 0.01)"
  have ev: "calls r = [\<lparr>it = 0, pval = Fin 10.1, post = Fin 10.1,
                        shown = Some (Fin 0, Fin 0.0105)\<rparr>,
                       \<lparr>it = 1, pval = Fin 10.205, post = Fin 10.205,
                        shown = Some (Fin 0, Fin 0.011025)\<rparr>]"
    and out: "outcome r = Inr (Some (PInf, [],
                [(''p_up_0'', Fin 10.1), (''p_up_1'', Fin 10.205)],
                [(''p_up_0'', Fin 2), (''p_up_1'', Fin 2)]))"
    unfolding r_def X_def
    by (simp_all add: run_defs float_defs demo_defs set_ctol_alpha_def)
  have h1: "(1::int) \<le> 2" by simp
  have h2: "length (calls r) = nat 2" by (simp add: ev)
  have h3: "\<forall>c\<in>set (calls r). \<exists>e sf'. shown c = Some (e, sf') \<and>
              \<not> fgt e (chi2_isf X (PyFloat (Fin 0.05)) (Fin 1))"
    by (simp add: ev X_def demo_defs fgt_def)
  from step_budget [OF h1, of X "demo_session (Fin 2) 100" "Fin 0.05" "''p''" "''up''" "Fin 0.01"]
    h2 h3
  have "final r = Some BudgetExhausted" unfolding r_def by blast
  with h1 h2 out show ?thesis
    unfolding Let_def X_def [symmetric] r_def [symmetric] by simp
qed

section \<open>The step fraction going down\<close>

lemma good_link: "good X E tr \<Longrightarrow> n < length tr \<Longrightarrow> link X E (take n tr) (tr ! n)"
proof (induction arbitrary: n rule: good.induct)
  case good_Nil
  then show ?case by simp
next
  case (good_snoc tr c)
  show ?case
  proof (cases "n < length tr")
    case True
    then show ?thesis using good_snoc.IH [of n] by (simp add: nth_append)
  next
    case False
    then have "n = length tr" using good_snoc.prems by simp
    then show ?thesis using good_snoc.hyps(3) by simp
  qed
qed

lemma step_CI_link:
  assumes p: "prologue X s pn d sf = Inr (E, S0)"
    and n: "n < length (calls (step_CI X s pn d sf))"
    and sh: "shown (calls (step_CI X s pn d sf) ! n) \<noteq> None"
  shows "link X E (take n (calls (step_CI X s pn d sf))) (calls (step_CI X s pn d sf) ! n)"
proof (cases rule: step_CI_cases [of X s pn d sf])
  case (raised e)
  then show ?thesis using p by simp
next
  case (fell E' S0')
  then have E: "E' = E" using p by simp
  from fell(2) have g: "good X E (calls (step_CI X s pn d sf))"
    by (simp add: fell_off_def E)
  show ?thesis by (rule good_link [OF g n])
next
  case (failed E' S0')
  then have E: "E' = E" using p by simp
  from failed(2) obtain tr c0 where cl: "calls (step_CI X s pn d sf) = tr @ [c0]"
    and g: "good X E tr" and sh0: "shown c0 = None"
    unfolding failed_at_def E by blast
  have "n < length tr" using n sh sh0 cl by (cases "n = length tr") auto
  then show ?thesis using good_link [OF g] cl by (simp add: nth_append)
next
  case (stopped E' S0')
  then have E: "E' = E" using p by simp
  from stopped(2) obtain tr c0 where cl: "calls (step_CI X s pn d sf) = tr @ [c0]"
    and g: "good X E tr" and l: "link X E tr c0"
    unfolding stopped_def E by blast
  show ?thesis
  proof (cases "n < length tr")
    case True
    then show ?thesis using good_link [OF g] cl by (simp add: nth_append)
  next
    case False
    then have "n = length tr" using n cl by simp
    then show ?thesis using l cl by simp
  qed
qed

lemma step_CI_earlier_shown:
  assumes p: "prologue X s pn d sf = Inr (E, S0)"
    and n: "Suc j < length (calls (step_CI X s pn d sf))"
  shows "shown (calls (step_CI X s pn d sf) ! j) \<noteq> None"
proof (cases rule: step_CI_cases [of X s pn d sf])
  case (raised e)
  then show ?thesis using p by simp
next
  case (fell E' S0')
  then show ?thesis using n fell_off_shown [OF fell(2)] by simp
next
  case (failed E' S0')
  from failed(2) obtain tr c0 where cl: "calls (step_CI X s pn d sf) = tr @ [c0]"
    and g: "good X E' tr"
    unfolding failed_at_def by blast
  have "j < length tr" using n cl by simp
  then show ?thesis using good_shown [OF g, of "tr ! j"] cl by (simp add: nth_append)
next
  case (stopped E' S0')
  from stopped(2) obtain tr c0 where cl: "calls (step_CI X s pn d sf) = tr @ [c0]"
    and g: "good X E' tr"
    unfolding stopped_def by blast
  have "j < length tr" using n cl by simp
  then show ?thesis using good_shown [OF g, of "tr ! j"] cl by (simp add: nth_append)
qed

lemma adjust_neg:
  assumes "sf = Fin z" "z < 0" "dflt = Fin y" "y < 0"
  shows "\<exists>w<0. adjust d sf dflt = Fin w"
proof -
  have "fmul (Fin 1.05) (Fin z) = Fin (1.05 * z)"
    using assms(2) by (simp add: fmul_def fin_def)
  moreover have "1.05 * z < 0" using assms(2) by simp
  ultimately have "\<exists>w<0. fmul (Fin 1.05) sf = Fin w"
    using assms(1) by blast
  moreover have "\<exists>w<0. dflt = Fin w" using assms(3,4) by blast
  ultimately show ?thesis
    by (cases "fle d (Fin 0.01)") (simp_all only: adjust_def if_True if_False)
qed

lemma link_neg:
  assumes l: "link X E tr c" and d: "def_SF E = Fin y" "y < 0"
    and prev: "tr \<noteq> [] \<Longrightarrow> \<exists>z<0. sf_of (last tr) = Fin z"
  shows "\<exists>w<0. sf_of c = Fin w"
proof (cases "tr = []")
  case True
  then show ?thesis using l adjust_neg [OF d d] by (simp add: link_def)
next
  case False
  from prev [OF False] obtain z where z: "z < 0" "sf_of (last tr) = Fin z" by blast
  show ?thesis using l False adjust_neg [OF z(2) z(1) d] by (simp add: link_def)
qed

lemma linked_neg:
  assumes d: "def_SF E = Fin y" "y < 0"
    and all: "\<And>m. m \<le> n \<Longrightarrow> link X E (take m cs) (cs ! m)" and n: "n < length cs"
  shows "\<exists>w<0. sf_of (cs ! n) = Fin w"
  using all n
proof (induction n)
  case 0
  show ?case using link_neg [OF "0.prems"(1) [of 0] d] by simp
next
  case (Suc n)
  have "\<exists>z<0. sf_of (cs ! n) = Fin z" using Suc by simp
  moreover have "last (take (Suc n) cs) = cs ! n"
    using Suc.prems(2) by (simp add: take_Suc_conv_app_nth)
  moreover have "take (Suc n) cs \<noteq> []" using Suc.prems(2) by auto
  ultimately show ?case
    using link_neg [OF Suc.prems(1) [of "Suc n"] d] by simp
qed

lemma fle_fin: "q \<le> t \<Longrightarrow> fle (fin q neg) (Fin t)"
  by (auto simp: fin_def zero_s_def)

lemma fabs_cases: "fabs v = NaN \<or> fabs v = PInf \<or> (\<exists>n\<ge>0. fabs v = Fin n)"
  by (cases v) auto

lemma fmul_neg_cases:
  assumes "z < 0" and "u = NaN \<or> u = PInf \<or> (\<exists>n\<ge>0. u = Fin n)"
  shows "fmul u (Fin z) = NaN \<or> fmul u (Fin z) = NInf \<or> fmul u (Fin z) = NegZero \<or>
         (\<exists>m<0. fmul u (Fin z) = Fin m)"
proof -
  from assms(2) consider "u = NaN" | "u = PInf" | n where "0 \<le> n" "u = Fin n" by blast
  then show ?thesis
  proof cases
    case 1
    then show ?thesis by (simp add: fmul_def)
  next
    case 2
    then show ?thesis using assms(1) by (simp add: fmul_def inf_s_def)
  next
    case 3
    show ?thesis
    proof (cases "n = 0")
      case True
      then show ?thesis using 3 assms(1) by (simp add: fmul_def fin_def zero_s_def)
    next
      case False
      then have "n * z < 0" using 3 assms(1) by (simp add: mult_pos_neg)
      then show ?thesis using 3 assms(1) False by (simp add: fmul_def fin_def)
    qed
  qed
qed

lemma fdiv_by_neg:
  assumes u: "u = NaN \<or> u = PInf \<or> (\<exists>n\<ge>0. u = Fin n)"
    and w: "w = NaN \<or> w = NInf \<or> w = NegZero \<or> (\<exists>m<0. w = Fin m)"
    and nn: "\<not> is_nan (fdiv u w)"
  shows "fle (fdiv u w) (Fin 0.01)"
proof -
  from u nn consider "u = PInf" | n where "0 \<le> n" "u = Fin n"
    by (auto simp: fdiv_def)
  then show ?thesis
  proof cases
    case 1
    then show ?thesis using w nn by (auto simp: fdiv_def inf_s_def)
  next
    case 2
    from w nn 2 consider "w = NInf" | "w = NegZero" | m where "m < 0" "w = Fin m"
      by (auto simp: fdiv_def)
    then show ?thesis
    proof cases
      case 1
      then show ?thesis using 2 by (simp add: fdiv_def zero_s_def)
    next
      case 2
      then show ?thesis using \<open>u = Fin n\<close> \<open>0 \<le> n\<close> nn by (auto simp: fdiv_def inf_s_def)
    next
      case 3
      have "n / m \<le> 0" using 3(1) \<open>0 \<le> n\<close> by (simp add: divide_nonneg_neg)
      then have q: "n / m \<le> 0.01" by (rule order_trans) simp
      have "fdiv u w = fin (n / m) (signbit (Fin n) \<noteq> signbit (Fin m))"
        using 3 \<open>u = Fin n\<close> by (simp add: fdiv_def)
      then show ?thesis using fle_fin [OF q] by simp
    qed
  qed
qed

lemma progress_down:
  assumes "z < 0" and "\<not> is_nan (progress prev cur (Fin z))"
  shows "fle (progress prev cur (Fin z)) (Fin 0.01)"
  using assms(2) unfolding progress_def
  by (rule fdiv_by_neg [OF fabs_cases fmul_neg_cases [OF assms(1) fabs_cases]])

lemma progress_number:
  assumes z: "z < 0" and a: "0 < a"
    and cur: "cur = PInf \<or> cur = NegZero \<or> (\<exists>b\<ge>0. cur = Fin b)"
    and ne: "\<not> (a = 1 \<and> cur = Fin 1)"
  shows "\<not> is_nan (progress (Fin a) cur (Fin z))"
proof -
  have den: "fmul (fabs (flog (Fin a))) (Fin z) = (if a = 1 then NegZero else Fin (\<bar>ln a\<bar> * z))"
    using z a by (auto simp: fmul_def fin_def zero_s_def)
  have neg: "a \<noteq> 1 \<Longrightarrow> \<bar>ln a\<bar> * z < 0" using z a by (simp add: mult_pos_neg)
  from cur consider "cur = PInf" | "cur = NegZero" | "cur = Fin 0" | b where "0 < b" "cur = Fin b"
    by (metis less_eq_real_def)
  then show ?thesis
  proof cases
    case 1
    then have "fabs (fsub (flog (Fin a)) (flog cur)) = PInf"
      using a by (simp add: fsub_def fadd_def)
    then show ?thesis unfolding progress_def den using neg by (auto simp: fdiv_def inf_s_def)
  next
    case 2
    then have "fabs (fsub (flog (Fin a)) (flog cur)) = PInf"
      using a by (simp add: fsub_def fadd_def)
    then show ?thesis unfolding progress_def den using neg by (auto simp: fdiv_def inf_s_def)
  next
    case 3
    then have "fabs (fsub (flog (Fin a)) (flog cur)) = PInf"
      using a by (simp add: fsub_def fadd_def)
    then show ?thesis unfolding progress_def den using neg by (auto simp: fdiv_def inf_s_def)
  next
    case 4
    have num: "fabs (fsub (flog (Fin a)) (flog cur)) = Fin \<bar>ln a - ln b\<bar>"
      using a 4 by (auto simp: fsub_def fadd_def fin_def zero_s_def)
    show ?thesis
    proof (cases "a = 1")
      case True
      then have "b \<noteq> 1" using ne 4 by simp
      then have "ln b \<noteq> 0" using 4 by simp
      then show ?thesis unfolding progress_def num den using True
        by (simp add: fdiv_def inf_s_def)
    next
      case False
      have m: "\<bar>ln a\<bar> * z < 0" by (rule neg [OF False])
      have "fdiv (Fin \<bar>ln a - ln b\<bar>) (Fin (\<bar>ln a\<bar> * z))
          = fin (\<bar>ln a - ln b\<bar> / (\<bar>ln a\<bar> * z))
              (signbit (Fin \<bar>ln a - ln b\<bar>) \<noteq> signbit (Fin (\<bar>ln a\<bar> * z)))"
        using m z a False by (simp add: fdiv_def)
      then show ?thesis unfolding progress_def num den using False
        by (simp add: fin_def zero_s_def)
    qed
  qed
qed

lemma step_CI_calls_prologue:
  assumes "calls (step_CI X s pn d sf) \<noteq> []"
  obtains E S0 where "prologue X s pn d sf = Inr (E, S0)"
  using assms by (cases rule: step_CI_cases [of X s pn d sf]) (auto simp: raise_fields)

text \<open>
  Claim C9, as amended. Going down with a positive step fraction \<open>x\<close>, the step fraction
  in force is negative throughout. At every iteration after the first whose progress
  measure \<^verbatim>\<open>d\<close> is a number (not NaN), \<^verbatim>\<open>d\<close> is at most \<open>0.01\<close> (it is a non-negative
  quotient divided by the negative step fraction), so the step fraction \<open>z\<close> is multiplied
  by \<open>1.05\<close> and not reset. \<^verbatim>\<open>d\<close> is a number whenever the objective value of the
  iteration before is finite and positive and that of the iteration is not negative
  (zero, positive or \<open>+inf\<close>), the two not both \<open>1\<close>.
\<close>

theorem downward_step_fraction_grows:
  assumes dn: "d \<noteq> ''up''" and x: "0 < x"
    and n: "Suc j < length (calls (step_CI X s pn d (Fin x)))"
    and sh: "shown (calls (step_CI X s pn d (Fin x)) ! Suc j) = Some (e', sf')"
  shows "\<exists>e z. z < 0 \<and> shown (calls (step_CI X s pn d (Fin x)) ! j) = Some (e, Fin z) \<and>
           (\<not> is_nan (progress (obj_value X (post (calls (step_CI X s pn d (Fin x)) ! j)))
                        (obj_value X (post (calls (step_CI X s pn d (Fin x)) ! Suc j)))
                        (Fin z))
            \<longrightarrow> fle (progress (obj_value X (post (calls (step_CI X s pn d (Fin x)) ! j)))
                        (obj_value X (post (calls (step_CI X s pn d (Fin x)) ! Suc j)))
                        (Fin z)) (Fin 0.01) \<and>
                sf' = Fin (1.05 * z)) \<and>
           ((\<exists>a>0. obj_value X (post (calls (step_CI X s pn d (Fin x)) ! j)) = Fin a \<and>
                (obj_value X (post (calls (step_CI X s pn d (Fin x)) ! Suc j)) = PInf \<or>
                 obj_value X (post (calls (step_CI X s pn d (Fin x)) ! Suc j)) = NegZero \<or>
                 (\<exists>b\<ge>0. obj_value X (post (calls (step_CI X s pn d (Fin x)) ! Suc j))
                           = Fin b)) \<and>
                \<not> (a = 1 \<and>
                   obj_value X (post (calls (step_CI X s pn d (Fin x)) ! Suc j)) = Fin 1))
            \<longrightarrow> \<not> is_nan (progress (obj_value X (post (calls (step_CI X s pn d (Fin x)) ! j)))
                        (obj_value X (post (calls (step_CI X s pn d (Fin x)) ! Suc j)))
                        (Fin z)))"
proof -
  let ?cs = "calls (step_CI X s pn d (Fin x))"
  let ?prev = "obj_value X (post (?cs ! j))"
  let ?cur = "obj_value X (post (?cs ! Suc j))"
  have "?cs \<noteq> []" using n by auto
  then obtain E S0 where p: "prologue X s pn d (Fin x) = Inr (E, S0)"
    by (rule step_CI_calls_prologue)
  have d: "def_SF E = Fin (- x)" "- x < 0"
    using prologue_Inr(8) [OF p] dn x by simp_all
  have shown_le: "shown (?cs ! m) \<noteq> None" if "m \<le> Suc j" for m
  proof (cases "m = Suc j")
    case True then show ?thesis using sh by simp
  next
    case False
    then have "Suc m < length ?cs" using that n by simp
    then show ?thesis by (rule step_CI_earlier_shown [OF p])
  qed
  have links: "link X E (take m ?cs) (?cs ! m)" if "m \<le> Suc j" for m
    using step_CI_link [OF p _ shown_le [OF that]] that n by simp
  have "\<exists>w<0. sf_of (?cs ! j) = Fin w"
    using linked_neg [OF d, of j X ?cs] links n by simp
  then obtain z where z: "z < 0" "sf_of (?cs ! j) = Fin z" by blast
  have lj: "link X E (take j ?cs) (?cs ! j)" using links [of j] by simp
  then have shj: "shown (?cs ! j) = Some (lr X E (?cs ! j), Fin z)"
    using z by (simp add: link_def)
  have last: "last (take (Suc j) ?cs) = ?cs ! j" "take (Suc j) ?cs \<noteq> []"
    using n by (simp_all add: take_Suc_conv_app_nth)
  have adj: "sf_of (?cs ! Suc j) = adjust (progress ?prev ?cur (Fin z)) (Fin z) (def_SF E)"
    using links [of "Suc j"] last z(2) by (simp add: link_def)
  have grow: "fle (progress ?prev ?cur (Fin z)) (Fin 0.01) \<and> sf' = Fin (1.05 * z)"
    if nn: "\<not> is_nan (progress ?prev ?cur (Fin z))"
  proof -
    have pd: "fle (progress ?prev ?cur (Fin z)) (Fin 0.01)"
      by (rule progress_down [OF z(1) nn])
    have "sf_of (?cs ! Suc j) = fmul (Fin 1.05) (Fin z)"
      unfolding adj using pd by (simp add: adjust_def)
    also have "\<dots> = Fin (1.05 * z)" using z(1) by (simp add: fmul_def fin_def)
    finally have "sf' = Fin (1.05 * z)" using sh by (simp add: sf_of_def)
    then show ?thesis using pd by simp
  qed
  have num: "\<not> is_nan (progress ?prev ?cur (Fin z))"
    if "\<exists>a>0. ?prev = Fin a \<and> (?cur = PInf \<or> ?cur = NegZero \<or> (\<exists>b\<ge>0. ?cur = Fin b)) \<and>
          \<not> (a = 1 \<and> ?cur = Fin 1)"
  proof -
    from that obtain a where a: "0 < a" "?prev = Fin a"
      "?cur = PInf \<or> ?cur = NegZero \<or> (\<exists>b\<ge>0. ?cur = Fin b)" "\<not> (a = 1 \<and> ?cur = Fin 1)"
      by blast
    show ?thesis unfolding a(2) by (rule progress_number [OF z(1) a(1) a(3) a(4)])
  qed
  show ?thesis
  proof (intro exI conjI impI)
    show "z < 0" by (rule z(1))
    show "shown (?cs ! j) = Some (lr X E (?cs ! j), Fin z)" by (rule shj)
    show "fle (progress ?prev ?cur (Fin z)) (Fin 0.01)"
      if "\<not> is_nan (progress ?prev ?cur (Fin z))" using grow [OF that] by simp
    show "sf' = Fin (1.05 * z)"
      if "\<not> is_nan (progress ?prev ?cur (Fin z))" using grow [OF that] by simp
    show "\<not> is_nan (progress ?prev ?cur (Fin z))"
      if "\<exists>a>0. ?prev = Fin a \<and> (?cur = PInf \<or> ?cur = NegZero \<or> (\<exists>b\<ge>0. ?cur = Fin b)) \<and>
          \<not> (a = 1 \<and> ?cur = Fin 1)" using num [OF that] .
  qed
qed

theorem downward_step_fraction_grows_witness:
  "let X = knee_ext (Fin 9.8) (Fin (exp 2)) (Fin (exp 1));
       r = step_CI X (demo_session (Fin (exp 1)) 3) ''p'' ''down'' (Fin 0.01)
   in ''down'' \<noteq> ''up'' \<and> (0::real) < 0.01 \<and> Suc 0 < length (calls r) \<and>
      shown (calls r ! 0) = Some (Fin 0, Fin (- 0.0105)) \<and>
      shown (calls r ! Suc 0) = Some (Fin 2, Fin (- 0.011025)) \<and>
      obj_value X (post (calls r ! 0)) = Fin (exp 1) \<and>
      obj_value X (post (calls r ! Suc 0)) = Fin (exp 2) \<and>
      progress (Fin (exp 1)) (Fin (exp 2)) (Fin (- 0.0105)) = Fin (- (2000 / 21)) \<and>
      \<not> is_nan (progress (Fin (exp 1)) (Fin (exp 2)) (Fin (- 0.0105))) \<and>
      fle (progress (Fin (exp 1)) (Fin (exp 2)) (Fin (- 0.0105))) (Fin 0.01) \<and>
      Fin (- 0.011025) = Fin (1.05 * - 0.0105)"
proof -
  define X where "X = knee_ext (Fin 9.8) (Fin (exp 2)) (Fin (exp 1))"
  define r where "r = step_CI X (demo_session (Fin (exp 1)) 3) ''p'' ''down'' (Fin 0.01)"
  have ev: "calls r
     = [\<lparr>it = 0, pval = Fin 9.9, post = Fin 9.9, shown = Some (Fin 0, Fin (- 0.0105))\<rparr>,
        \<lparr>it = 1, pval = Fin 9.795, post = Fin 9.795,
          shown = Some (Fin 2, Fin (- 0.011025))\<rparr>,
        \<lparr>it = 2, pval = Fin 9.68475, post = Fin 9.68475,
          shown = Some (Fin 2, Fin (- 0.01157625))\<rparr>]"
    unfolding r_def X_def by (simp add: run_defs float_defs knee_defs)
  have h1: "''down'' \<noteq> ''up''" and h2: "(0::real) < 0.01" by simp_all
  have h3: "Suc 0 < length (calls r)" by (simp add: ev)
  have h4: "shown (calls r ! Suc 0) = Some (Fin 2, Fin (- 0.011025))" by (simp add: ev)
  have s0: "shown (calls r ! 0) = Some (Fin 0, Fin (- 0.0105))" by (simp add: ev)
  have o: "obj_value X (post (calls r ! 0)) = Fin (exp 1)"
    "obj_value X (post (calls r ! Suc 0)) = Fin (exp 2)"
    by (simp_all add: ev X_def knee_defs)
  have pv: "progress (Fin (exp 1)) (Fin (exp 2)) (Fin (- 0.0105)) = Fin (- (2000 / 21))"
    by (simp add: progress_def float_defs)
  have suff: "\<exists>a>0. Fin (exp 1) = Fin a \<and>
      (Fin (exp 2) = PInf \<or> Fin (exp 2) = NegZero \<or> (\<exists>b\<ge>0. Fin (exp 2) = Fin b)) \<and>
      \<not> (a = 1 \<and> Fin (exp 2) = Fin 1)"
    by (rule exI [of _ "exp 1"]) simp
  from downward_step_fraction_grows [OF h1 h2 h3 [unfolded r_def] h4 [unfolded r_def]]
  obtain e z where z: "shown (calls r ! 0) = Some (e, Fin z)"
    and g: "\<not> is_nan (progress (obj_value X (post (calls r ! 0)))
                (obj_value X (post (calls r ! Suc 0))) (Fin z))
            \<longrightarrow> fle (progress (obj_value X (post (calls r ! 0)))
                (obj_value X (post (calls r ! Suc 0))) (Fin z)) (Fin 0.01) \<and>
                Fin (- 0.011025) = Fin (1.05 * z)"
    and nn: "(\<exists>a>0. obj_value X (post (calls r ! 0)) = Fin a \<and>
                (obj_value X (post (calls r ! Suc 0)) = PInf \<or>
                 obj_value X (post (calls r ! Suc 0)) = NegZero \<or>
                 (\<exists>b\<ge>0. obj_value X (post (calls r ! Suc 0)) = Fin b)) \<and>
                \<not> (a = 1 \<and> obj_value X (post (calls r ! Suc 0)) = Fin 1))
            \<longrightarrow> \<not> is_nan (progress (obj_value X (post (calls r ! 0)))
                (obj_value X (post (calls r ! Suc 0))) (Fin z))"
    unfolding r_def by blast
  have zv: "z = - 0.0105" using z s0 by simp
  from nn suff have n: "\<not> is_nan (progress (Fin (exp 1)) (Fin (exp 2)) (Fin (- 0.0105)))"
    unfolding o zv by blast
  with g have "fle (progress (Fin (exp 1)) (Fin (exp 2)) (Fin (- 0.0105))) (Fin 0.01) \<and>
      Fin (- 0.011025) = Fin (1.05 * - 0.0105)"
    unfolding o zv by blast
  with h1 h2 h3 h4 s0 o pv n show ?thesis
    unfolding Let_def X_def [symmetric] r_def [symmetric] by blast
qed

text \<open>
  The claim as stated fails where \<^verbatim>\<open>d\<close> is NaN, since \<^verbatim>\<open>nan <= 0.01\<close> is false.
  With a flat objective of value \<open>1\<close> (whose logarithm is \<open>0\<close>), going down from the
  optimum \<open>10\<close> with step fraction \<open>0.01\<close>: iteration 0 grows the step fraction to
  \<open>-0.0105\<close>; at iteration 1, \<^verbatim>\<open>d = 0.0 / -0.0\<close> is NaN and the step fraction is
  reset to \<open>-0.01\<close>, although the objective did not change at all (the case for which the
  comment of the source, \<^verbatim>\<open>if obj change too small, increase stepsize\<close>, announces a larger
  step).
\<close>

theorem downward_reset_counterexample:
  "shown (calls (step_CI (demo_ext PInf (Fin 1)) (demo_session (Fin 1) 3) ''p'' ''down''
            (Fin 0.01)) ! 0) = Some (Fin 0, Fin (- 0.0105)) \<and>
   shown (calls (step_CI (demo_ext PInf (Fin 1)) (demo_session (Fin 1) 3) ''p'' ''down''
            (Fin 0.01)) ! 1) = Some (Fin 0, Fin (- 0.01)) \<and>
   progress (Fin 1) (Fin 1) (Fin (- 0.0105)) = NaN \<and>
   \<not> fle (progress (Fin 1) (Fin 1) (Fin (- 0.0105))) (Fin 0.01)"
proof -
  have "calls (step_CI (demo_ext PInf (Fin 1)) (demo_session (Fin 1) 3) ''p'' ''down''
            (Fin 0.01))
     = [\<lparr>it = 0, pval = Fin 9.9, post = Fin 9.9, shown = Some (Fin 0, Fin (- 0.0105))\<rparr>,
        \<lparr>it = 1, pval = Fin 9.795, post = Fin 9.795, shown = Some (Fin 0, Fin (- 0.01))\<rparr>,
        \<lparr>it = 2, pval = Fin 9.695, post = Fin 9.695, shown = Some (Fin 0, Fin (- 0.01))\<rparr>]"
    by (simp add: run_defs float_defs demo_defs)
  moreover have "progress (Fin 1) (Fin 1) (Fin (- 0.0105)) = NaN"
    by (simp add: progress_def float_defs)
  ultimately show ?thesis by simp
qed

section \<open>The bounds lie on either side of the optimum\<close>


lemma finite_fin [simp]: "finite_float (fin r neg)" "rv (fin r neg) = r"
  by (auto simp: fin_def zero_s_def finite_float_def)

lemma finite_Fin [simp]: "finite_float (Fin x)" "finite_float NegZero"
  by (simp_all add: finite_float_def)




















lemmas get_CI_defs =
  get_CI_def profile_one_def set_ctol_alpha_def dict_merge_def float_dict_def

lemma demo_get_CI:
  "get_CI (demo_ext PInf (Fin 2)) (demo_session (Fin 2) 100) 100 (Fin 0.05) (Fin 0.04)
     = Inr demo_result"
  unfolding demo_result_def by (simp add: get_CI_defs run_defs float_defs demo_defs)



section \<open>The error statistic\<close>

lemma likelihood_ratio_pos:
  "0 < x \<Longrightarrow> 0 < y \<Longrightarrow> fmul (Fin 2) (fsub (flog (Fin x)) (flog (Fin y))) = Fin (2 * (ln x - ln y)) \<or>
     (ln x = ln y \<and> fmul (Fin 2) (fsub (flog (Fin x)) (flog (Fin y))) = Fin 0)"
  by (auto simp: fsub_def fadd_def fmul_def fin_def zero_s_def)

lemma lr_pos:
  "0 < x \<Longrightarrow> 0 < y \<Longrightarrow> fmul (Fin 2) (fsub (flog (Fin x)) (flog (Fin y))) = Fin (2 * (ln x - ln y))"
  using likelihood_ratio_pos [of x y] by auto

lemma run_tested:
  assumes a: "attrs s ''alpha'' = Some a"
    and c: "c \<in> set (calls (step_CI X s pn d sf))"
    and sh: "shown c = Some (e, sf')"
  shows "e = likelihood_ratio (obj_value X (post c)) (obj s) \<and>
         (if c = last (calls (step_CI X s pn d sf))
          then final (step_CI X s pn d sf) = Some Converged
                 \<longleftrightarrow> fgt e (chi2_isf X a (Fin 1))
          else fle e (chi2_isf X a (Fin 1)) \<and> \<not> fgt e (chi2_isf X a (Fin 1)))"
    (is "_ \<and> (if c = last (calls ?r) then _ else _)")
proof (cases rule: step_CI_cases [of X s pn d sf])
  case (raised e)
  then show ?thesis using c by (simp add: raise_fields)
next
  case (fell E S0)
  note pf = prologue_Inr [OF fell(1)]
  have et: "etol E = chi2_isf X a (Fin 1)" using pf(5) a by simp
  from fell(2) have g: "good X E (calls ?r)" and f: "final ?r = None"
    by (simp_all add: fell_off_def)
  from good_shown [OF g c] sh have e: "e = lr X E c" and nf: "\<not> fgt e (etol E)" by simp_all
  have e': "e = likelihood_ratio (obj_value X (post c)) (obj s)"
    using e by (simp add: lr_def pf(3))
  show ?thesis
  proof (cases "c = last (calls ?r)")
    case True
    then show ?thesis using e' nf f et by simp
  next
    case False
    have "fle e (etol E)"
      using good_butlast [OF g in_butlast [OF c False]] e by simp
    then show ?thesis using False e' nf et by simp
  qed
next
  case (failed E S0)
  note pf = prologue_Inr [OF failed(1)]
  have et: "etol E = chi2_isf X a (Fin 1)" using pf(5) a by simp
  from failed(2) obtain tr c0 where cl: "calls ?r = tr @ [c0]" and g: "good X E tr"
    and af: "\<forall>c'\<in>set tr. fle (lr X E c') (etol E)" and sh0: "shown c0 = None"
    unfolding failed_at_def by blast
  have ne: "c \<noteq> c0" using sh sh0 by auto
  then have ctr: "c \<in> set tr" using c cl by simp
  from good_shown [OF g ctr] sh have e: "e = lr X E c" and nf: "\<not> fgt e (etol E)" by simp_all
  show ?thesis using e nf af ctr ne cl by (simp add: lr_def pf(3) et)
next
  case (stopped E S0)
  note pf = prologue_Inr [OF stopped(1)]
  have et: "etol E = chi2_isf X a (Fin 1)" using pf(5) a by simp
  from stopped(2) obtain tr c0 f b where cl: "calls ?r = tr @ [c0]" and g: "good X E tr"
    and af: "\<forall>c'\<in>set tr. fle (lr X E c') (etol E)" and l: "link X E tr c0"
    and f: "final ?r = Some f"
    and v: "(fgt (lr X E c0) (etol E) \<and> f = Converged \<and> b = pval c0) \<or>
         (\<not> fgt (lr X E c0) (etol E) \<and> int (length tr) = ctol E - 1 \<and> f = BudgetExhausted \<and>
            b = (if dr E = ''up'' then PInf else NInf)) \<or>
         (\<not> fgt (lr X E c0) (etol E) \<and> int (length tr) \<noteq> ctol E - 1 \<and> f = BoundReached \<and>
            b = pval c0)"
    unfolding stopped_def by blast
  show ?thesis
  proof (cases "c = c0")
    case True
    then have "e = lr X E c0" using l sh by (simp add: link_def)
    then show ?thesis using True cl f v by (auto simp: lr_def pf(3) et)
  next
    case False
    then have ctr: "c \<in> set tr" using c cl by simp
    from good_shown [OF g ctr] sh have e: "e = lr X E c" and nf: "\<not> fgt e (etol E)"
      by simp_all
    show ?thesis using e nf af ctr False cl by (simp add: lr_def pf(3) et)
  qed
qed

lemma profile_one_runs:
  assumes po: "profile_one X s sf pn A = Inr A'"
    and old: "\<forall>t\<in>set (g_runs A). step_CI_run X s sf t"
  shows "\<forall>t\<in>set (g_runs A'). step_CI_run X s sf t"
proof -
  have "\<exists>m m'. g_runs A' = g_runs A @ [(pn, ''up'', step_CI X (s\<lparr>model := m\<rparr>) pn ''up'' sf),
          (pn, ''down'', step_CI X (s\<lparr>model := m'\<rparr>) pn ''down'' sf)]"
    using po
    by (auto simp: profile_one_def Let_def
        split: option.splits sum.splits if_splits prod.splits)
  then show ?thesis using old by (auto simp: step_CI_run_def)
qed

lemma for_each_runs:
  assumes "for_each (profile_one X s sf) ps A = Inr A'"
    and "\<forall>t\<in>set (g_runs A). step_CI_run X s sf t"
  shows "\<forall>t\<in>set (g_runs A'). step_CI_run X s sf t"
  using assms
proof (induction ps arbitrary: A)
  case Nil
  then show ?case by simp
next
  case (Cons pn ps)
  from Cons.prems(1) obtain A1 where 1: "profile_one X s sf pn A = Inr A1"
    and 2: "for_each (profile_one X s sf) ps A1 = Inr A'"
    by (auto split: sum.splits)
  show ?case by (rule Cons.IH [OF 2 profile_one_runs [OF 1 Cons.prems(2)]])
qed

lemma get_CI_runs:
  assumes g: "get_CI X s maxSteps alpha sf = Inr R" and t: "(pn, d, r) \<in> set (runs R)"
  shows "\<exists>m. r = step_CI X ((set_ctol_alpha s maxSteps alpha)\<lparr>model := m\<rparr>) pn d sf"
proof -
  let ?s1 = "set_ctol_alpha s maxSteps alpha"
  from g obtain A0 A where fe: "for_each (profile_one X ?s1 sf) (pnames ?s1) A0 = Inr A"
    and A0: "g_runs A0 = []" and R: "runs R = g_runs A"
    by (auto simp: get_CI_def Let_def split: sum.splits)
  have "\<forall>t\<in>set (g_runs A). step_CI_run X ?s1 sf t"
    by (rule for_each_runs [OF fe]) (simp add: A0)
  then show ?thesis using t by (auto simp: R step_CI_run_def)
qed

text \<open>
  Claim C4. The error statistic of every successful call \<open>c\<close> of a run of \<^verbatim>\<open>step_CI\<close>
  is twice the difference of the logarithms of the objective after the solve and of the
  baseline objective \<^verbatim>\<open>self.obj\<close>: the float expression as the code computes it, which
  for two finite positive objectives \<open>x\<close> and \<open>y\<close> is the real number \<open>2 * (ln x - ln y)\<close>.
  It is tested against the threshold \<^verbatim>\<open>chi2.isf(self.alpha, 1)\<close>, the same at every
  iteration: a call that is not the last passed both tests (\<^verbatim>\<open>err <= etol\<close> at the head
  of the loop, and not \<^verbatim>\<open>err > etol\<close>), and the run ends with \<^verbatim>\<open>Reached ... CI!\<close>
  exactly when the statistic of its last call is above the threshold. Within a session of
  \<^verbatim>\<open>get_CI(maxSteps, alpha, stepfrac)\<close> every run, for every parameter and direction, is a
  run of \<^verbatim>\<open>step_CI\<close> with the one threshold \<^verbatim>\<open>chi2.isf(alpha, 1)\<close> and the one baseline.
\<close>

theorem error_statistic:
  "(attrs s ''alpha'' = Some a \<and> c \<in> set (calls (step_CI X s pn d sf)) \<and>
    shown c = Some (e, sf')
    \<longrightarrow> e = fmul (Fin 2) (fsub (flog (obj_value X (post c))) (flog (obj s))) \<and>
        (\<forall>x y. obj_value X (post c) = Fin x \<and> 0 < x \<and> obj s = Fin y \<and> 0 < y
               \<longrightarrow> e = Fin (2 * (ln x - ln y))) \<and>
        (if c = last (calls (step_CI X s pn d sf))
         then final (step_CI X s pn d sf) = Some Converged
                \<longleftrightarrow> fgt e (chi2_isf X a (Fin 1))
         else fle e (chi2_isf X a (Fin 1)) \<and> \<not> fgt e (chi2_isf X a (Fin 1)))) \<and>
   (get_CI X s maxSteps alpha sf = Inr R \<and> (pn', d', r) \<in> set (runs R) \<and>
    c' \<in> set (calls r) \<and> shown c' = Some (e', sf'')
    \<longrightarrow> (\<exists>m. r = step_CI X ((set_ctol_alpha s maxSteps alpha)\<lparr>model := m\<rparr>) pn' d' sf) \<and>
        e' = fmul (Fin 2) (fsub (flog (obj_value X (post c'))) (flog (obj s))) \<and>
        (\<forall>x y. obj_value X (post c') = Fin x \<and> 0 < x \<and> obj s = Fin y \<and> 0 < y
               \<longrightarrow> e' = Fin (2 * (ln x - ln y))) \<and>
        (if c' = last (calls r)
         then final r = Some Converged \<longleftrightarrow> fgt e' (chi2_isf X (PyFloat alpha) (Fin 1))
         else fle e' (chi2_isf X (PyFloat alpha) (Fin 1)) \<and>
              \<not> fgt e' (chi2_isf X (PyFloat alpha) (Fin 1))))"
proof (intro conjI impI; (elim conjE)?)
  assume a: "attrs s ''alpha'' = Some a" and c: "c \<in> set (calls (step_CI X s pn d sf))"
    and sh: "shown c = Some (e, sf')"
  note t = run_tested [OF a c sh]
  from t show e: "e = fmul (Fin 2) (fsub (flog (obj_value X (post c))) (flog (obj s)))"
    by (simp add: likelihood_ratio_def)
  show "\<forall>x y. obj_value X (post c) = Fin x \<and> 0 < x \<and> obj s = Fin y \<and> 0 < y
               \<longrightarrow> e = Fin (2 * (ln x - ln y))"
    using e lr_pos by metis
  from t show "if c = last (calls (step_CI X s pn d sf))
         then final (step_CI X s pn d sf) = Some Converged
                \<longleftrightarrow> fgt e (chi2_isf X a (Fin 1))
         else fle e (chi2_isf X a (Fin 1)) \<and> \<not> fgt e (chi2_isf X a (Fin 1))"
    by blast
next
  assume g: "get_CI X s maxSteps alpha sf = Inr R" and r: "(pn', d', r) \<in> set (runs R)"
    and c: "c' \<in> set (calls r)" and sh: "shown c' = Some (e', sf'')"
  let ?s1 = "set_ctol_alpha s maxSteps alpha"
  from get_CI_runs [OF g r] obtain m where m: "r = step_CI X (?s1\<lparr>model := m\<rparr>) pn' d' sf"
    by blast
  then show "\<exists>m. r = step_CI X (?s1\<lparr>model := m\<rparr>) pn' d' sf" by blast
  have a: "attrs (?s1\<lparr>model := m\<rparr>) ''alpha'' = Some (PyFloat alpha)"
    by (simp add: set_ctol_alpha_def)
  have o: "obj (?s1\<lparr>model := m\<rparr>) = obj s" by (simp add: set_ctol_alpha_def)
  note t = run_tested [OF a c [unfolded m] sh, unfolded o, folded m]
  from t show e: "e' = fmul (Fin 2) (fsub (flog (obj_value X (post c'))) (flog (obj s)))"
    by (simp add: likelihood_ratio_def)
  show "\<forall>x y. obj_value X (post c') = Fin x \<and> 0 < x \<and> obj s = Fin y \<and> 0 < y
               \<longrightarrow> e' = Fin (2 * (ln x - ln y))"
    using e lr_pos by metis
  from t show "if c' = last (calls r)
         then final r = Some Converged \<longleftrightarrow> fgt e' (chi2_isf X (PyFloat alpha) (Fin 1))
         else fle e' (chi2_isf X (PyFloat alpha) (Fin 1)) \<and>
              \<not> fgt e' (chi2_isf X (PyFloat alpha) (Fin 1))"
    by blast
qed

lemma knee_get_CI:
  "get_CI (knee_ext (Fin 10.5) (Fin (exp 1)) (Fin (exp 3))) (demo_session (Fin (exp 1)) 100)
     100 (Fin 0.05) (Fin 0.04) = Inr knee_result"
  unfolding knee_result_def by (simp add: get_CI_defs run_defs float_defs knee_defs)

theorem error_statistic_witness:
  "let X = knee_ext (Fin 10.5) (Fin (exp 1)) (Fin (exp 3));
       s = demo_session (Fin (exp 1)) 100;
       r = step_CI X s ''p'' ''up'' (Fin 0.04);
       c0 = \<lparr>it = 0, pval = Fin 10.4, post = Fin 10.4, shown = Some (Fin 0, Fin 0.042)\<rparr>;
       c1 = \<lparr>it = 1, pval = Fin 10.82, post = Fin 10.82, shown = Some (Fin 4, Fin 0.04)\<rparr>
   in attrs s ''alpha'' = Some (PyFloat (Fin 0.05)) \<and> calls r = [c0, c1] \<and>
      obj s = Fin (exp 1) \<and> obj_value X (post c0) = Fin (exp 1) \<and>
      obj_value X (post c1) = Fin (exp 3) \<and>
      Fin 0 = Fin (2 * (ln (exp 1) - ln (exp 1))) \<and>
      fle (Fin 0) (chi2_isf X (PyFloat (Fin 0.05)) (Fin 1)) \<and>
      get_CI X s 100 (Fin 0.05) (Fin 0.04) = Inr knee_result \<and>
      (''p'', ''up'', r) \<in> set (runs knee_result) \<and>
      Fin 4 = fmul (Fin 2) (fsub (flog (Fin (exp 3))) (flog (Fin (exp 1)))) \<and>
      Fin 4 = Fin (2 * (ln (exp 3) - ln (exp 1))) \<and>
      fgt (Fin 4) (chi2_isf X (PyFloat (Fin 0.05)) (Fin 1)) \<and>
      final r = Some Converged"
proof -
  define X where "X = knee_ext (Fin 10.5) (Fin (exp 1)) (Fin (exp 3))"
  define s where "s = demo_session (Fin (exp 1)) 100"
  define r where "r = step_CI X s ''p'' ''up'' (Fin 0.04)"
  define c0 :: "pyfloat call" where
    "c0 = \<lparr>it = 0, pval = Fin 10.4, post = Fin 10.4, shown = Some (Fin 0, Fin 0.042)\<rparr>"
  define c1 :: "pyfloat call" where
    "c1 = \<lparr>it = 1, pval = Fin 10.82, post = Fin 10.82, shown = Some (Fin 4, Fin 0.04)\<rparr>"
  have ev: "calls r = [c0, c1]"
    unfolding r_def X_def s_def c0_def c1_def
    by (simp add: run_defs float_defs knee_defs)
  have g: "get_CI X s 100 (Fin 0.05) (Fin 0.04) = Inr knee_result"
    unfolding X_def s_def by (rule knee_get_CI)
  have m: "(''p'', ''up'', r) \<in> set (runs knee_result)"
    unfolding r_def X_def s_def knee_result_def
    by (simp add: run_defs float_defs knee_defs)
  have h1: "attrs s ''alpha'' = Some (PyFloat (Fin 0.05))" by (simp add: s_def knee_defs)
  have h2: "c0 \<in> set (calls r)" "c1 \<in> set (calls r)" by (simp_all add: ev)
  have h3: "shown c0 = Some (Fin 0, Fin 0.042)" "shown c1 = Some (Fin 4, Fin 0.04)"
    by (simp_all add: c0_def c1_def)
  have l: "c0 \<noteq> last (calls r)" "c1 = last (calls r)" by (simp_all add: ev c0_def c1_def)
  have o: "obj s = Fin (exp 1)" "obj_value X (post c0) = Fin (exp 1)"
    "obj_value X (post c1) = Fin (exp 3)"
    by (simp_all add: s_def X_def c0_def c1_def knee_defs)
  have p: "(0::real) < exp 1" "(0::real) < exp 3" by simp_all
  have t: "fgt (Fin 4) (chi2_isf X (PyFloat (Fin 0.05)) (Fin 1))"
    by (simp add: X_def knee_defs fgt_def)
  note th = error_statistic [where X = X and s = s and a = "PyFloat (Fin 0.05)" and c = c0
      and pn = "''p''" and d = "''up''" and sf = "Fin 0.04" and e = "Fin 0"
      and sf' = "Fin 0.042" and maxSteps = 100 and alpha = "Fin 0.05" and R = knee_result
      and pn' = "''p''" and d' = "''up''" and r = r and c' = c1 and e' = "Fin 4"
      and sf'' = "Fin 0.04"]
  from th h1 h2(1) [unfolded r_def] h3(1) l(1) [unfolded r_def] o p
  have a: "Fin 0 = Fin (2 * (ln (exp 1) - ln (exp 1))) \<and>
      fle (Fin 0) (chi2_isf X (PyFloat (Fin 0.05)) (Fin 1))"
    by metis
  from th g m h2(2) h3(2) l(2) o p t
  have b: "Fin 4 = fmul (Fin 2) (fsub (flog (Fin (exp 3))) (flog (Fin (exp 1)))) \<and>
      Fin 4 = Fin (2 * (ln (exp 3) - ln (exp 1))) \<and> final r = Some Converged"
    by metis
  from h1 ev o a g m b t show ?thesis
    unfolding Let_def X_def [symmetric] s_def [symmetric] r_def [symmetric]
      c0_def [symmetric] c1_def [symmetric]
    by blast
qed

section \<open>The bound test, zero bounds, and construction\<close>

text \<open>
  Claim C3, at a failing input. The optimum is \<open>10\<close>, the declared upper bound
  \<open>10.5\<close>, the step fraction \<open>0.01\<close>, the objective flat, so that convergence never
  fires. \<^verbatim>\<open>nextdr\<close> starts one step behind the value that the loop tries next, and
  the run stops with \<^verbatim>\<open>Reached parameter upper bound!\<close> only after it has solved at
  \<open>10.552563125\<close>, beyond the bound; that value is returned. The last value below the
  bound was \<open>10.4310125\<close>.
\<close>

theorem bound_overshoot:
  "target_bound ''up'' (Some (Fin 9.5), Some (Fin 10.5)) = Fin 10.5 \<and>
   outcome (step_CI (demo_ext PInf (Fin 2)) (demo_session (Fin 2) 100) ''p'' ''up'' (Fin 0.01))
     = Inr (Some (Fin 10.552563125, [],
         [(''p_up_0'', Fin 10.1), (''p_up_1'', Fin 10.205), (''p_up_2'', Fin 10.31525),
          (''p_up_3'', Fin 10.4310125), (''p_up_4'', Fin 10.552563125)],
         [(''p_up_0'', Fin 2), (''p_up_1'', Fin 2), (''p_up_2'', Fin 2),
          (''p_up_3'', Fin 2), (''p_up_4'', Fin 2)])) \<and>
   final (step_CI (demo_ext PInf (Fin 2)) (demo_session (Fin 2) 100) ''p'' ''up'' (Fin 0.01))
     = Some BoundReached \<and>
   fgt (Fin 10.552563125) (Fin 10.5) \<and> flt (Fin 10.4310125) (Fin 10.5)"
  by (simp add: run_defs float_defs demo_defs)

text \<open>
  Claim C10. A declared bound of exactly \<open>0\<close> (of either sign) is falsy, so the side is
  treated as unbounded: the target going up is \<open>+inf\<close> and the target going down is
  \<open>1e-10\<close>, and a run with the bound \<open>0\<close> on the requested side is the run with no
  bound there.
\<close>

theorem zero_bound_is_unbounded:
  "target_bound ''up'' (lb, Some (Fin 0)) = PInf \<and>
   target_bound ''up'' (lb, Some NegZero) = PInf \<and>
   target_bound ''up'' (lb, None) = PInf \<and>
   target_bound ''down'' (Some (Fin 0), ub) = Fin (1 / 10 ^ 10) \<and>
   target_bound ''down'' (Some NegZero, ub) = Fin (1 / 10 ^ 10) \<and>
   target_bound ''down'' (None, ub) = Fin (1 / 10 ^ 10) \<and>
   step_CI X (s\<lparr>pbounds := AList.update pn (lb, Some (Fin 0)) (pbounds s)\<rparr>) pn ''up'' sf
     = step_CI X (s\<lparr>pbounds := AList.update pn (lb, None) (pbounds s)\<rparr>) pn ''up'' sf \<and>
   step_CI X (s\<lparr>pbounds := AList.update pn (Some (Fin 0), ub) (pbounds s)\<rparr>) pn ''down'' sf
     = step_CI X (s\<lparr>pbounds := AList.update pn (None, ub) (pbounds s)\<rparr>) pn ''down'' sf"
proof -
  have t: "target_bound ''up'' (lb, Some (Fin 0)) = PInf"
    "target_bound ''up'' (lb, Some NegZero) = PInf"
    "target_bound ''up'' (lb, None) = PInf"
    "target_bound ''down'' (Some (Fin 0), ub) = Fin (1 / 10 ^ 10)"
    "target_bound ''down'' (Some NegZero, ub) = Fin (1 / 10 ^ 10)"
    "target_bound ''down'' (None, ub) = Fin (1 / 10 ^ 10)"
    by (simp_all add: target_bound_def truthy_float_def)
  have "prologue X (s\<lparr>pbounds := AList.update pn (lb, Some (Fin 0)) (pbounds s)\<rparr>) pn ''up'' sf
     = prologue X (s\<lparr>pbounds := AList.update pn (lb, None) (pbounds s)\<rparr>) pn ''up'' sf"
    by (simp add: prologue_def update_conv' t Let_def split: option.splits pyobj.splits)
  moreover have "prologue X (s\<lparr>pbounds := AList.update pn (Some (Fin 0), ub) (pbounds s)\<rparr>)
       pn ''down'' sf
     = prologue X (s\<lparr>pbounds := AList.update pn (None, ub) (pbounds s)\<rparr>) pn ''down'' sf"
    by (simp add: prologue_def update_conv' t Let_def split: option.splits pyobj.splits)
  ultimately show ?thesis using t by (simp add: step_CI_def raise_def split: sum.splits)
qed

text \<open>
  Claim C7, as amended. When \<^verbatim>\<open>presolve\<close> is requested and a discretization is
  requested (\<^verbatim>\<open>dae\<close> is truthy) that is not a recognized string, \<^verbatim>\<open>__init__\<close> raises at
  once, before any solve: TypeError, before any transformation, when \<^verbatim>\<open>dae\<close> is not a
  string; the error of the transformation framework when \<^verbatim>\<open>dae\<close> is a string that the
  framework refuses. This holds whatever the other arguments are.
\<close>

theorem init_dae_check:
  "(presolve \<and> truthy dae \<and> (\<forall>d. dae \<noteq> PyStr d)
      \<longrightarrow> init X m0 pns dae presolve = ([], Inl TypeError)) \<and>
   (presolve \<and> truthy (PyStr d) \<and> transform X d m0 = Inl e
      \<longrightarrow> init X m0 pns (PyStr d) presolve = ([Transformed d], Inl e)) \<and>
   (presolve \<and> truthy dae \<and>
    ((\<forall>d. dae \<noteq> PyStr d) \<or> (\<exists>d e. dae = PyStr d \<and> transform X d m0 = Inl e))
      \<longrightarrow> (\<exists>h e. init X m0 pns dae presolve = (h, Inl e) \<and> Solved \<notin> set h))"
proof (intro conjI impI)
  assume "presolve \<and> truthy dae \<and> (\<forall>d. dae \<noteq> PyStr d)"
  then show "init X m0 pns dae presolve = ([], Inl TypeError)"
    by (cases dae) (auto simp: init_def)
next
  assume "presolve \<and> truthy (PyStr d) \<and> transform X d m0 = Inl e"
  then show "init X m0 pns (PyStr d) presolve = ([Transformed d], Inl e)"
    by (simp add: init_def)
next
  assume a: "presolve \<and> truthy dae \<and>
    ((\<forall>d. dae \<noteq> PyStr d) \<or> (\<exists>d e. dae = PyStr d \<and> transform X d m0 = Inl e))"
  show "\<exists>h e. init X m0 pns dae presolve = (h, Inl e) \<and> Solved \<notin> set h"
  proof (cases "\<forall>d. dae \<noteq> PyStr d")
    case True
    then have "init X m0 pns dae presolve = ([], Inl TypeError)"
      using a by (cases dae) (auto simp: init_def)
    then show ?thesis by simp
  next
    case False
    then obtain d e where "dae = PyStr d" "transform X d m0 = Inl e" using a by blast
    then have "init X m0 pns dae presolve = ([Transformed d], Inl e)"
      using a by (simp add: init_def)
    then show ?thesis by simp
  qed
qed

theorem init_dae_check_witness:
  "truthy (PyInt 42) \<and> PyInt 42 \<noteq> PyStr ''collocation'' \<and>
   init (demo_ext PInf (Fin 2)) (Fin 10) [''p''] (PyInt 42) True = ([], Inl TypeError) \<and>
   truthy (PyStr ''nonesuch'') \<and>
   transform ((demo_ext PInf (Fin 2))\<lparr>transform := \<lambda>d m. Inl (AttributeError ''apply_to'')\<rparr>)
     ''nonesuch'' (Fin 10) = Inl (AttributeError ''apply_to'') \<and>
   init ((demo_ext PInf (Fin 2))\<lparr>transform := \<lambda>d m. Inl (AttributeError ''apply_to'')\<rparr>)
     (Fin 10) [''p''] (PyStr ''nonesuch'') True
     = ([Transformed ''nonesuch''], Inl (AttributeError ''apply_to'')) \<and>
   Solved \<notin> set [Transformed ''nonesuch'']"
  using init_dae_check [of True "PyInt 42" "demo_ext PInf (Fin 2)" "Fin 10" "[''p'']"]
    init_dae_check [of True "PyStr ''nonesuch''"
      "(demo_ext PInf (Fin 2))\<lparr>transform := \<lambda>d m. Inl (AttributeError ''apply_to'')\<rparr>"
      "Fin 10" "[''p'']" "''nonesuch''" "AttributeError ''apply_to''"]
  by simp

text \<open>
  The claim as stated fails: with \<^verbatim>\<open>dae=42\<close> and the default \<^verbatim>\<open>presolve=False\<close>
  the guard \<^verbatim>\<open>if dae and presolve\<close> is false, the type of \<^verbatim>\<open>dae\<close> is not checked, and
  the session is constructed.
\<close>

theorem init_accepts_non_string_dae_counterexample:
  "init (demo_ext PInf (Fin 2)) (Fin 10) [''p''] (PyInt 42) False
     = ([], Inr \<lparr>model = Fin 10, pnames = [''p''], obj = Fin 2, popt = [(''p'', Fin 10)],
                 pbounds = [(''p'', (Some (Fin 9.5), Some (Fin 10.5)))], attrs = Map.empty\<rparr>)"
  by (simp add: init_def comprehension_def demo_ext_def)

section \<open>Export and import\<close>

lemma get_CI_attrs:
  assumes "get_CI X s maxSteps alpha sf = Inr R"
  shows "attrs (session R) ''alpha'' = Some (PyFloat alpha)"
    "attrs (session R) ''parub'' = Some (float_dict (upper_bound R))"
    "attrs (session R) ''parlb'' = Some (float_dict (lower_bound R))"
    "\<exists>v. attrs (session R) ''var_dict'' = Some v"
    "\<exists>v. attrs (session R) ''obj_dict'' = Some v"
  using assms
  by (auto simp: get_CI_def set_ctol_alpha_def Let_def split: sum.splits)

lemma gather_atts:
  assumes "attrs s ''alpha'' = Some v1" "attrs s ''parub'' = Some v2"
    "attrs s ''parlb'' = Some v3" "attrs s ''var_dict'' = Some v4"
    "attrs s ''obj_dict'' = Some v5"
  shows "gather (attrs s) atts []
           = Inr [(''alpha'', v1), (''parub'', v2), (''parlb'', v3), (''var_dict'', v4),
                  (''obj_dict'', v5)]"
  using assms by (simp add: atts_def)

lemma set_all_atts:
  "set_all t (dict_merge [] [(''alpha'', v1), (''parub'', v2), (''parlb'', v3),
       (''var_dict'', v4), (''obj_dict'', v5)])
     = Inr (t\<lparr>attrs := (attrs t)(''alpha'' \<mapsto> v1, ''parub'' \<mapsto> v2, ''parlb'' \<mapsto> v3,
                                  ''var_dict'' \<mapsto> v4, ''obj_dict'' \<mapsto> v5)\<rparr>)"
  by (simp add: dict_merge_def setattr_def unmodelled_names_def)

lemma demo_gather:
  "gather (attrs (session demo_result)) atts [] = Inr sv \<Longrightarrow> PyDict sv = demo_object"
  by (auto simp: demo_result_def atts_def demo_object_def)

text \<open>A saved key that names an attribute assigned by \<^verbatim>\<open>__init__\<close> overwrites it.\<close>

lemma load_json_overwrites:
  "load_json Inr (demo_session (Fin 2) 100) ''saved.json''
     [''saved.json'' \<mapsto> PyDict [(''popt'', PyDict [(''p'', PyFloat (Fin 5))]),
                                 (''alpha'', PyFloat (Fin 0.1))]]
   = Inr ((demo_session (Fin 2) 100)
       \<lparr>popt := [(''p'', Fin 5)],
        attrs := [''ctol'' \<mapsto> PyInt 100, ''alpha'' \<mapsto> PyFloat (Fin 0.1)]\<rparr>)"
  by (simp add: load_json_def dict_merge_def setattr_def dict_of_def unmodelled_names_def
      demo_session_def)

text \<open>
  Claim C6. After \<^verbatim>\<open>get_CI\<close> has returned, \<^verbatim>\<open>to_json\<close> succeeds and writes one
  object, the dictionary of \<^verbatim>\<open>alpha\<close>, \<^verbatim>\<open>parub\<close>, \<^verbatim>\<open>parlb\<close>, \<^verbatim>\<open>var_dict\<close> and
  \<^verbatim>\<open>obj_dict\<close>, in that order. Provided the export format preserves that one object
  (reading what \<^verbatim>\<open>json.dump\<close> wrote for it gives it back), \<^verbatim>\<open>load_json\<close> of the file,
  on any other session, succeeds and sets the five attributes to the values they have on
  the first session; it changes no other attribute of that session, nor what
  \<^verbatim>\<open>__init__\<close> assigned.
\<close>

theorem json_round_trip:
  assumes g: "get_CI X s maxSteps alpha sf = Inr R"
    and codec: "\<forall>sv. gather (attrs (session R)) atts [] = Inr sv
                  \<longrightarrow> load (dump (PyDict sv)) = Inr (PyDict sv)"
  shows "\<exists>sv s'. gather (attrs (session R)) atts [] = Inr sv \<and> map fst sv = atts \<and>
           to_json dump (session R) filename fs = Inr (fs(filename \<mapsto> dump (PyDict sv))) \<and>
           load_json load fresh filename (fs(filename \<mapsto> dump (PyDict sv))) = Inr s' \<and>
           attrs s' ''alpha'' = attrs (session R) ''alpha'' \<and>
           attrs s' ''parub'' = attrs (session R) ''parub'' \<and>
           attrs s' ''parlb'' = attrs (session R) ''parlb'' \<and>
           attrs s' ''var_dict'' = attrs (session R) ''var_dict'' \<and>
           attrs s' ''obj_dict'' = attrs (session R) ''obj_dict'' \<and>
           attrs s' ''alpha'' = Some (PyFloat alpha) \<and>
           attrs s' ''parub'' = Some (float_dict (upper_bound R)) \<and>
           attrs s' ''parlb'' = Some (float_dict (lower_bound R)) \<and>
           (\<forall>k. k \<notin> set atts \<longrightarrow> attrs s' k = attrs fresh k) \<and>
           model s' = model fresh \<and> pnames s' = pnames fresh \<and> obj s' = obj fresh \<and>
           popt s' = popt fresh \<and> pbounds s' = pbounds fresh"
proof -
  note ga = get_CI_attrs [OF g]
  from ga(4,5) obtain v4 v5 where v: "attrs (session R) ''var_dict'' = Some v4"
    "attrs (session R) ''obj_dict'' = Some v5" by blast
  let ?sv = "[(''alpha'', PyFloat alpha), (''parub'', float_dict (upper_bound R)),
              (''parlb'', float_dict (lower_bound R)), (''var_dict'', v4), (''obj_dict'', v5)]"
  let ?s' = "fresh\<lparr>attrs := (attrs fresh)(''alpha'' \<mapsto> PyFloat alpha,
               ''parub'' \<mapsto> float_dict (upper_bound R),
               ''parlb'' \<mapsto> float_dict (lower_bound R),
               ''var_dict'' \<mapsto> v4, ''obj_dict'' \<mapsto> v5)\<rparr>"
  have gt: "gather (attrs (session R)) atts [] = Inr ?sv"
    by (rule gather_atts [OF ga(1,2,3) v])
  have ld: "load (dump (PyDict ?sv)) = Inr (PyDict ?sv)" using codec gt by blast
  have tj: "to_json dump (session R) filename fs = Inr (fs(filename \<mapsto> dump (PyDict ?sv)))"
    by (simp add: to_json_def gt)
  have lj: "load_json load fresh filename (fs(filename \<mapsto> dump (PyDict ?sv))) = Inr ?s'"
    by (simp add: load_json_def ld set_all_atts)
  have "gather (attrs (session R)) atts [] = Inr ?sv \<and> map fst ?sv = atts \<and>
           to_json dump (session R) filename fs = Inr (fs(filename \<mapsto> dump (PyDict ?sv))) \<and>
           load_json load fresh filename (fs(filename \<mapsto> dump (PyDict ?sv))) = Inr ?s' \<and>
           attrs ?s' ''alpha'' = attrs (session R) ''alpha'' \<and>
           attrs ?s' ''parub'' = attrs (session R) ''parub'' \<and>
           attrs ?s' ''parlb'' = attrs (session R) ''parlb'' \<and>
           attrs ?s' ''var_dict'' = attrs (session R) ''var_dict'' \<and>
           attrs ?s' ''obj_dict'' = attrs (session R) ''obj_dict'' \<and>
           attrs ?s' ''alpha'' = Some (PyFloat alpha) \<and>
           attrs ?s' ''parub'' = Some (float_dict (upper_bound R)) \<and>
           attrs ?s' ''parlb'' = Some (float_dict (lower_bound R)) \<and>
           (\<forall>k. k \<notin> set atts \<longrightarrow> attrs ?s' k = attrs fresh k) \<and>
           model ?s' = model fresh \<and> pnames ?s' = pnames fresh \<and> obj ?s' = obj fresh \<and>
           popt ?s' = popt fresh \<and> pbounds ?s' = pbounds fresh"
    using gt tj lj by (simp add: ga v atts_def)
  then show ?thesis by blast
qed

theorem json_round_trip_witness:
  "get_CI (demo_ext PInf (Fin 2)) (demo_session (Fin 2) 100) 100 (Fin 0.05) (Fin 0.04)
     = Inr demo_result \<and>
   demo_load (demo_dump demo_object) = Inr demo_object \<and>
   to_json demo_dump (session demo_result) ''ci.json'' Map.empty
     = Inr [''ci.json'' \<mapsto> demo_json] \<and>
   (\<exists>s'. load_json demo_load (demo_session (Fin 1) 7) ''ci.json'' [''ci.json'' \<mapsto> demo_json]
           = Inr s' \<and>
      attrs s' ''alpha'' = Some (PyFloat (Fin 0.05)) \<and>
      attrs s' ''parub'' = Some (PyDict [(''p'', PyFloat (Fin 10.82))]) \<and>
      attrs s' ''parlb'' = Some (PyDict [(''p'', PyFloat (Fin 9.18))]) \<and>
      attrs s' ''var_dict'' = attrs (session demo_result) ''var_dict'' \<and>
      attrs s' ''obj_dict'' = attrs (session demo_result) ''obj_dict'' \<and>
      attrs s' ''ctol'' = Some (PyInt 7) \<and> obj s' = Fin 1)"
proof -
  have codec: "\<forall>sv. gather (attrs (session demo_result)) atts [] = Inr sv
                  \<longrightarrow> demo_load (demo_dump (PyDict sv)) = Inr (PyDict sv)"
    using demo_gather by (auto simp: demo_load_def demo_dump_def)
  have c0: "demo_load (demo_dump demo_object) = Inr demo_object"
    by (simp add: demo_load_def demo_dump_def)
  have gt: "gather (attrs (session demo_result)) atts []
      = Inr sv \<Longrightarrow> demo_dump (PyDict sv) = demo_json" for sv
    using demo_gather [of sv] by (simp add: demo_dump_def)
  from json_round_trip [where load = demo_load and dump = demo_dump and filename = "''ci.json''"
      and fs = Map.empty and fresh = "demo_session (Fin 1) 7", OF demo_get_CI codec]
  obtain sv s' where sv: "gather (attrs (session demo_result)) atts [] = Inr sv"
    and tj: "to_json demo_dump (session demo_result) ''ci.json'' Map.empty
      = Inr [''ci.json'' \<mapsto> demo_dump (PyDict sv)]"
    and lj: "load_json demo_load (demo_session (Fin 1) 7) ''ci.json''
      [''ci.json'' \<mapsto> demo_dump (PyDict sv)] = Inr s'"
    and at: "attrs s' ''alpha'' = Some (PyFloat (Fin 0.05))"
      "attrs s' ''parub'' = Some (float_dict (upper_bound demo_result))"
      "attrs s' ''parlb'' = Some (float_dict (lower_bound demo_result))"
      "attrs s' ''var_dict'' = attrs (session demo_result) ''var_dict''"
      "attrs s' ''obj_dict'' = attrs (session demo_result) ''obj_dict''"
    and ot: "\<forall>k. k \<notin> set atts \<longrightarrow> attrs s' k = attrs (demo_session (Fin 1) 7) k"
    and ob: "obj s' = obj (demo_session (Fin 1) 7)"
    by blast
  have ct: "attrs s' ''ctol'' = Some (PyInt 7)"
    using ot by (simp add: atts_def demo_session_def)
  have o1: "obj s' = Fin 1" using ob by (simp add: demo_session_def)
  have pu: "attrs s' ''parub'' = Some (PyDict [(''p'', PyFloat (Fin 10.82))])"
    "attrs s' ''parlb'' = Some (PyDict [(''p'', PyFloat (Fin 9.18))])"
    using at(2,3) by (simp_all add: float_dict_def demo_result_def)
  show ?thesis
    using demo_get_CI c0 tj lj at(1,4,5) pu ct o1 unfolding gt [OF sv] by blast
qed

end
